theory Spec2Isabelle
  imports Complex_Main "HOL-Library.AList"
begin

section \<open>The computational graph (hyperd.js)\<close>

text \<open>
  A JavaScript \<open>Map\<close> keeps its keys in insertion order and \<open>set\<close> on an existing key
  replaces the value in place. It is modelled by an association list with
  \<open>AList.update\<close> for \<open>set\<close>, \<open>map_of\<close> for \<open>get\<close>/\<open>has\<close>, \<open>map fst\<close> for \<open>keys()\<close>,
  \<open>map snd\<close> for \<open>values()\<close> and \<open>length\<close> for \<open>size\<close>. The node objects are mutable and
  live in the map, so a mutation of a node is an update of its entry.

  A thrown \<open>Error\<close> is a value of type \<open>error\<close>; the source tells its errors apart by
  their message only, and \<open>message\<close> rebuilds that text.
\<close>

datatype status = Pending | Running | Completed | Failed
datatype 'r node_result = Null | Value 'r | ErrorObject string

record 'r ComputationalNode =
  node_id :: string
  system :: string
  operation :: string
  inputs :: "string list"
  outputs :: "string list"
  status :: status
  result :: "'r node_result"

datatype error = CycleDetected string | SystemNotRegistered string
  | MethodNotFound string | OperationError string

record dfs =
  visited :: "string set"
  tempMark :: "string set"
  order :: "string list"

text \<open>
  The depth-first traversal of \<open>buildExecutionOrder\<close>. The three local collections
  \<open>visited\<close>, \<open>tempMark\<close> and \<open>order\<close> are mutated by the closure \<open>visit\<close>; they are the
  state \<open>dfs\<close> that \<open>visit\<close> threads. \<open>visit_inputs\<close> is the loop over \<open>node.inputs\<close>.
\<close>

function visit :: "(string \<times> 'r ComputationalNode) list \<Rightarrow> string \<Rightarrow> dfs \<Rightarrow> error + dfs"
  and visit_inputs :: "(string \<times> 'r ComputationalNode) list \<Rightarrow> string list \<Rightarrow> dfs \<Rightarrow> error + dfs"
where
  "visit ns nodeId s =
     (if nodeId \<in> tempMark s then Inl (CycleDetected nodeId)
      else if nodeId \<notin> visited s then
        (case (case map_of ns nodeId of
                 None \<Rightarrow> Inr (s\<lparr>tempMark := insert nodeId (tempMark s)\<rparr>)
               | Some node \<Rightarrow>
                   visit_inputs ns (inputs node) (s\<lparr>tempMark := insert nodeId (tempMark s)\<rparr>)) of
           Inl e \<Rightarrow> Inl e
         | Inr s' \<Rightarrow> Inr (s'\<lparr>tempMark := tempMark s' - {nodeId},
                              visited := insert nodeId (visited s'),
                              order := order s' @ [nodeId]\<rparr>))
      else Inr s)"
| "visit_inputs ns [] s = Inr s"
| "visit_inputs ns (inputId # rest) s =
     (case visit ns inputId s of
        Inl e \<Rightarrow> Inl e
      | Inr s' \<Rightarrow> visit_inputs ns rest s')"
  by pat_completeness auto

text \<open>
  A successful visit leaves \<open>tempMark\<close> as it found it; this is what makes the recursion
  terminate: every nested call happens under a strictly larger set of marked graph keys.
\<close>

lemma visit_tempMark_dom:
  "visit_visit_inputs_dom (Inl (ns, nodeId, s)) \<Longrightarrow> visit ns nodeId s = Inr s' \<Longrightarrow> tempMark s' = tempMark s"
  "visit_visit_inputs_dom (Inr (ns, ids, s)) \<Longrightarrow> visit_inputs ns ids s = Inr s' \<Longrightarrow> tempMark s' = tempMark s"
proof (induction ns nodeId s and ns ids s arbitrary: s' and s' rule: visit_visit_inputs.pinduct)
  case (1 ns nodeId s)
  note eq = visit.psimps [OF "1.hyps"]
  show ?case
  proof (cases "nodeId \<in> tempMark s \<or> nodeId \<in> visited s")
    case True
    with "1.prems" eq show ?thesis by (auto split: if_splits)
  next
    case False
    then have nt: "nodeId \<notin> tempMark s" and nv: "nodeId \<notin> visited s" by auto
    let ?s1 = "s\<lparr>tempMark := insert nodeId (tempMark s)\<rparr>"
    show ?thesis
    proof (cases "map_of ns nodeId")
      case None
      with "1.prems" eq nt nv show ?thesis by auto
    next
      case (Some node)
      with "1.prems" eq nt nv obtain s2 where
        s2: "visit_inputs ns (inputs node) ?s1 = Inr s2"
        and s': "s' = s2\<lparr>tempMark := tempMark s2 - {nodeId},
                              visited := insert nodeId (visited s2),
                              order := order s2 @ [nodeId]\<rparr>"
        by (auto split: sum.splits)
      from "1.IH" [OF nt nv Some s2] have "tempMark s2 = insert nodeId (tempMark s)" by simp
      with s' nt show ?thesis by auto
    qed
  qed
next
  case (2 ns s)
  then show ?case by (simp add: visit_inputs.psimps)
next
  case (3 ns inputId rest s)
  from "3.prems" visit_inputs.psimps(2) [OF "3.hyps"] obtain s1 where
    s1: "visit ns inputId s = Inr s1" and r: "visit_inputs ns rest s1 = Inr s'"
    by (auto split: sum.splits)
  from "3.IH"(1) [OF s1] "3.IH"(2) [OF s1 r] show ?case by simp
qed

termination visit
proof (relation "inv_image (less_than <*lex*> less_than)
    (\<lambda>x. case x of
       Inl (ns, nodeId, s) \<Rightarrow> (card (fst ` set ns - tempMark s), 0)
     | Inr (ns, ids, s) \<Rightarrow> (card (fst ` set ns - tempMark s), Suc (length ids)))", goal_cases)
  case 1
  show ?case by (intro wf_inv_image wf_lex_prod wf_less_than)
next
  case (2 ns nodeId s node)
  then have "nodeId \<in> fst ` set ns" by (metis map_of_SomeD fst_conv image_eqI)
  with 2 have "fst ` set ns - insert nodeId (tempMark s) \<subset> fst ` set ns - tempMark s"
    by auto
  then have "card (fst ` set ns - insert nodeId (tempMark s)) < card (fst ` set ns - tempMark s)"
    by (intro psubset_card_mono) auto
  then show ?case by simp
next
  case (3 ns inputId rest s)
  then show ?case by simp
next
  case (4 ns inputId rest s s')
  then show ?case by (simp add: visit_tempMark_dom)
qed
declare visit.simps [simp del]

text \<open>The loop over \<open>this.#nodes.keys()\<close>.\<close>

fun visit_keys :: "(string \<times> 'r ComputationalNode) list \<Rightarrow> string list \<Rightarrow> dfs \<Rightarrow> error + dfs" where
  "visit_keys ns [] s = Inr s"
| "visit_keys ns (nodeId # rest) s =
     (if nodeId \<notin> visited s then
        (case visit ns nodeId s of
           Inl e \<Rightarrow> Inl e
         | Inr s' \<Rightarrow> visit_keys ns rest s')
      else visit_keys ns rest s)"

text \<open>
  A registered system is an object whose methods are called as
  \<open>system[method](...args, ...inputs)\<close>: a method takes the string arguments parsed from
  the operation and the input results (\<open>None\<close> is \<open>undefined\<close>), and either throws or
  rejects with a message or returns a result. A \<open>dispatch\<close> records one such call: the
  node, the method, the arguments and the inputs.
\<close>

type_synonym 'r sys_method = "string list \<Rightarrow> 'r option list \<Rightarrow> string + 'r"
type_synonym 'r system = "string \<rightharpoonup> 'r sys_method"
type_synonym 'r dispatch = "string \<times> string \<times> string list \<times> 'r option list"

record 'r ComputationalGraph =
  nodes :: "(string \<times> 'r ComputationalNode) list"
  executionOrder :: "string list"
  systems :: "string \<rightharpoonup> 'r system"

definition newGraph :: "'r ComputationalGraph" where
  "newGraph = \<lparr>nodes = [], executionOrder = [], systems = Map.empty\<rparr>"

definition registerSystem :: "'r ComputationalGraph \<Rightarrow> string \<Rightarrow> 'r system \<Rightarrow> 'r ComputationalGraph" where
  "registerSystem g name instance = g\<lparr>systems := (systems g)(name \<mapsto> instance)\<rparr>"

definition addOutput :: "'r ComputationalNode \<Rightarrow> string \<Rightarrow> 'r ComputationalNode" where
  "addOutput node nodeId = node\<lparr>outputs := outputs node @ [nodeId]\<rparr>"

definition setStatus :: "'r ComputationalNode \<Rightarrow> status \<Rightarrow> 'r ComputationalNode" where
  "setStatus node st = node\<lparr>status := st\<rparr>"

definition setResult :: "'r ComputationalNode \<Rightarrow> 'r node_result \<Rightarrow> 'r ComputationalNode" where
  "setResult node res = node\<lparr>result := res, status := Completed\<rparr>"

fun link_outputs ::
  "string \<Rightarrow> string list \<Rightarrow> (string \<times> 'r ComputationalNode) list \<Rightarrow> (string \<times> 'r ComputationalNode) list" where
  "link_outputs nid [] ns = ns"
| "link_outputs nid (inputId # rest) ns =
     link_outputs nid rest
       (case map_of ns inputId of
          None \<Rightarrow> ns
        | Some inputNode \<Rightarrow> AList.update inputId (addOutput inputNode nid) ns)"

definition addNode ::
  "'r ComputationalGraph \<Rightarrow> string \<Rightarrow> string \<Rightarrow> string \<Rightarrow> string list \<Rightarrow> 'r ComputationalGraph" where
  "addNode g nid sys opn ins =
     (let node = \<lparr>node_id = nid, system = sys, operation = opn, inputs = ins, outputs = [],
                   status = Pending, result = Null\<rparr>
      in g\<lparr>nodes := link_outputs nid ins (AList.update nid node (nodes g))\<rparr>)"

definition buildExecutionOrder ::
  "'r ComputationalGraph \<Rightarrow> (error + string list) \<times> 'r ComputationalGraph" where
  "buildExecutionOrder g =
     (case visit_keys (nodes g) (map fst (nodes g)) \<lparr>visited = {}, tempMark = {}, order = []\<rparr> of
        Inl e \<Rightarrow> (Inl e, g)
      | Inr s \<Rightarrow> (Inr (order s), g\<lparr>executionOrder := order s\<rparr>))"

fun message :: "error \<Rightarrow> string" where
  "message (CycleDetected nodeId) = ''Cycle detected in computational graph at node: '' @ nodeId"
| "message (SystemNotRegistered name) = ''System not registered: '' @ name"
| "message (MethodNotFound methodName) = ''Method not found: '' @ methodName @ '' in system''"
| "message (OperationError msg) = msg"

text \<open>\<open>const [method, ...args] = operation.split(':')\<close>\<close>

fun split_colon :: "string \<Rightarrow> string \<times> string list" where
  "split_colon [] = ([], [])"
| "split_colon (c # cs) =
     (case split_colon cs of
        (w, ws) \<Rightarrow> if c = CHR '':'' then ([], w # ws) else (c # w, ws))"

definition executeOperation ::
  "'r system \<Rightarrow> string \<Rightarrow> 'r option list
     \<Rightarrow> (error + 'r) \<times> (string \<times> string list \<times> 'r option list) list" where
  "executeOperation sys opn ins =
     (case split_colon opn of
        (methodName, args) \<Rightarrow>
          (case sys methodName of
             Some f \<Rightarrow>
               (case f args ins of
                  Inl msg \<Rightarrow> (Inl (OperationError msg), [(methodName, args, ins)])
                | Inr r \<Rightarrow> (Inr r, [(methodName, args, ins)]))
           | None \<Rightarrow> (Inl (MethodNotFound methodName), [])))"

text \<open>The body of the \<open>try\<close> block of \<open>execute\<close> for one node.\<close>

definition run_node ::
  "(string \<rightharpoonup> 'r system) \<Rightarrow> 'r ComputationalNode \<Rightarrow> 'r option list
     \<Rightarrow> (error + 'r) \<times> (string \<times> string list \<times> 'r option list) list" where
  "run_node syss node inputResults =
     (case syss (system node) of
        None \<Rightarrow> (Inl (SystemNotRegistered (system node)), [])
      | Some sys \<Rightarrow> executeOperation sys (operation node) inputResults)"

text \<open>
  The loop of \<open>execute\<close> over the execution order. It returns the thrown error or the
  result map, the nodes after the run and the calls made to the systems.
  In the \<open>catch\<close> block \<open>setStatus('failed')\<close> is followed by \<open>setResult\<close>, which sets the
  status again.
\<close>

fun execute_loop ::
  "(string \<rightharpoonup> 'r system) \<Rightarrow> string list \<Rightarrow> (string \<times> 'r ComputationalNode) list
     \<Rightarrow> (string \<rightharpoonup> 'r) \<Rightarrow> 'r dispatch list
     \<Rightarrow> (error + (string \<rightharpoonup> 'r)) \<times> (string \<times> 'r ComputationalNode) list \<times> 'r dispatch list" where
  "execute_loop syss [] ns results tr = (Inr results, ns, tr)"
| "execute_loop syss (nodeId # rest) ns results tr =
     (case map_of ns nodeId of
        None \<Rightarrow> execute_loop syss rest ns results tr
      | Some node \<Rightarrow>
          (case run_node syss node (map results (inputs node)) of
             (Inr r, calls) \<Rightarrow>
               execute_loop syss rest
                 (AList.update nodeId (setResult (setStatus node Running) (Value r)) ns)
                 (results(nodeId \<mapsto> r))
                 (tr @ map (Pair nodeId) calls)
           | (Inl e, calls) \<Rightarrow>
               (Inl e,
                AList.update nodeId
                  (setResult (setStatus (setStatus node Running) Failed) (ErrorObject (message e))) ns,
                tr @ map (Pair nodeId) calls)))"

definition execute ::
  "'r ComputationalGraph
     \<Rightarrow> (error + (string \<rightharpoonup> 'r)) \<times> 'r ComputationalGraph \<times> 'r dispatch list" where
  "execute g =
     (case (if executionOrder g = [] then buildExecutionOrder g else (Inr (executionOrder g), g)) of
        (Inl e, g1) \<Rightarrow> (Inl e, g1, [])
      | (Inr _, g1) \<Rightarrow>
          (case execute_loop (systems g1) (executionOrder g1) (nodes g1) Map.empty [] of
             (out, ns, tr) \<Rightarrow> (out, g1\<lparr>nodes := ns\<rparr>, tr)))"

subsection \<open>Dependencies and cycles\<close>

text \<open>
  \<open>depends ns n i\<close>: node \<open>n\<close> of the graph lists \<open>i\<close> among its inputs. A node is on a
  cycle when it reaches itself through one or more such edges.
\<close>

definition depends :: "(string \<times> 'r ComputationalNode) list \<Rightarrow> string \<Rightarrow> string \<Rightarrow> bool" where
  "depends ns n i \<longleftrightarrow> (\<exists>node. map_of ns n = Some node \<and> i \<in> set (inputs node))"

definition on_cycle :: "(string \<times> 'r ComputationalNode) list \<Rightarrow> string \<Rightarrow> bool" where
  "on_cycle ns n \<longleftrightarrow> (depends ns)\<^sup>+\<^sup>+ n n"

definition precedes :: "string list \<Rightarrow> string \<Rightarrow> string \<Rightarrow> bool" where
  "precedes xs i n \<longleftrightarrow> (\<exists>a b. a < b \<and> b < length xs \<and> xs ! a = i \<and> xs ! b = n)"

section \<open>The hyper-graph index (hgnn.js)\<close>

text \<open>
  JavaScript numbers are modelled by the reals: rounding, overflow and \<open>NaN\<close> are not
  modelled, and a vector is read only at indices below its length (an index beyond the
  end would read \<open>undefined\<close> in the source) and an attention instance has at least one
  head (with none the source divides zero by zero). The one division whose divisor can
  be zero in a well-formed index, in \<open>getNetworkInsights\<close>, is modelled with an explicit
  \<open>NaN\<close>.
\<close>

datatype jsnum = Number real | NaN | PosInfinity

record HyperEdge =
  edge_id :: string
  edge_nodes :: "string list"
  edge_type :: string
  edge_weight :: real
  edge_metadata :: "(string \<times> string) list"

record Embedding =
  vector :: "real list"
  dimension :: nat
  emb_system :: "string option"
  contributors :: "string list"

datatype hg_error = NodeNotFound string | TargetNodeNotFound string | EmbeddingRequired

subsection \<open>Embeddings and attention\<close>

text \<open>
  \<open>HyperGraphEmbedding.fromMultipleEmbeddings\<close>: the weighted sum of the vectors, normalised
  when its norm is positive. \<open>weights\<close> is \<open>None\<close> for the default \<open>null\<close>.
\<close>

definition fromMultipleEmbeddings :: "Embedding list \<Rightarrow> real list option \<Rightarrow> hg_error + Embedding" where
  "fromMultipleEmbeddings embeddings weights0 =
     (if embeddings = [] then Inl EmbeddingRequired
      else
        (let dimn = dimension (hd embeddings);
             weights = (case weights0 of
                          None \<Rightarrow> replicate (length embeddings) (1 / real (length embeddings))
                        | Some w \<Rightarrow> w);
             summed = foldl (\<lambda>vec i. map (\<lambda>j. vec ! j + vector (embeddings ! i) ! j * weights ! i) [0..<dimn])
                        (replicate dimn 0) [0..<length embeddings];
             contribs = foldl (\<lambda>cs i. case emb_system (embeddings ! i) of
                                  None \<Rightarrow> cs
                                | Some sys \<Rightarrow> if sys \<noteq> [] \<and> sys \<notin> set cs then cs @ [sys] else cs)
                          [] [0..<length embeddings];
             norm = sqrt (foldl (\<lambda>n i. n + summed ! i * summed ! i) 0 [0..<dimn])
         in Inr \<lparr>vector = (if norm > 0 then map (\<lambda>x. x / norm) summed else summed),
                  dimension = dimn, emb_system = None, contributors = contribs\<rparr>))"

record HyperGraphAttention =
  attentionWeights :: "real list list list"
  numHeads :: nat
  att_dimension :: nat

text \<open>
  \<open>#initializeWeights\<close> draws every entry from \<open>Math.random()\<close>. The random source is the
  function \<open>rnd\<close>: its value at \<open>k\<close> is what the \<open>k\<close>-th call returns. The entries are
  drawn head by head, row by row.
\<close>

definition initializeWeights :: "nat \<Rightarrow> nat \<Rightarrow> (nat \<Rightarrow> real) \<Rightarrow> real list list list" where
  "initializeWeights dimn heads rnd =
     map (\<lambda>head. map (\<lambda>i. map (\<lambda>j. (rnd (head * dimn * dimn + i * dimn + j) - 0.5) * 0.1)
                            [0..<dimn]) [0..<dimn]) [0..<heads]"

text \<open>
  The constructor has the parameters \<open>dimension\<close> and \<open>numHeads\<close> only. JavaScript drops
  the arguments of a call beyond the declared parameters; \<open>extra\<close> stands for whatever a
  caller passes in third place.
\<close>

definition new_HyperGraphAttention :: "nat \<Rightarrow> nat \<Rightarrow> 'x \<Rightarrow> (nat \<Rightarrow> real) \<Rightarrow> HyperGraphAttention" where
  "new_HyperGraphAttention dimn heads extra rnd =
     \<lparr>attentionWeights = initializeWeights dimn heads rnd, numHeads = heads, att_dimension = dimn\<rparr>"

definition transform :: "nat \<Rightarrow> real list \<Rightarrow> real list list \<Rightarrow> real list" where
  "transform dimn v W = map (\<lambda>i. foldl (\<lambda>acc j. acc + W ! i ! j * v ! j) 0 [0..<dimn]) [0..<dimn]"

definition dotProduct :: "real list \<Rightarrow> real list \<Rightarrow> real" where
  "dotProduct a b = foldl (\<lambda>sum i. sum + a ! i * b ! i) 0 [0..<length a]"

text \<open>\<open>Math.max(...scores)\<close>, used on the scores of a non-empty list of keys.\<close>

fun Math_max :: "real list \<Rightarrow> real" where
  "Math_max [x] = x"
| "Math_max (x # y # ys) = max x (Math_max (y # ys))"

definition softmax :: "real list \<Rightarrow> real list" where
  "softmax scores =
     (let maxScore = Math_max scores;
          expScores = map (\<lambda>s. exp (s - maxScore)) scores;
          sum = foldl (+) 0 expScores
      in map (\<lambda>s. s / sum) expScores)"

definition computeAttention :: "HyperGraphAttention \<Rightarrow> Embedding \<Rightarrow> Embedding list \<Rightarrow> real list" where
  "computeAttention att queryEmb keyEmbs =
     (let allScores =
            map (\<lambda>head.
                   let W = attentionWeights att ! head;
                       q = transform (att_dimension att) (vector queryEmb) W;
                       scores = map (\<lambda>keyEmb.
                                  dotProduct q (transform (att_dimension att) (vector keyEmb) W)
                                    / sqrt (real (att_dimension att))) keyEmbs
                   in softmax scores)
                [0..<numHeads att]
      in map (\<lambda>i. foldl (\<lambda>acc head. acc + allScores ! head ! i) 0 [0..<numHeads att]
                    / real (numHeads att))
           [0..<length keyEmbs])"

subsection \<open>Nodes and hyperedges\<close>

record GraphNode =
  node_system :: string
  node_type :: string
  embedding :: Embedding

record HyperGraphNeuralNetwork =
  hg_nodes :: "(string \<times> GraphNode) list"
  hyperEdges :: "(string \<times> HyperEdge) list"
  attention :: HyperGraphAttention
  hg_dimension :: nat

definition new_HyperGraphNeuralNetwork :: "nat \<Rightarrow> (nat \<Rightarrow> real) \<Rightarrow> HyperGraphNeuralNetwork" where
  "new_HyperGraphNeuralNetwork dimn rnd =
     \<lparr>hg_nodes = [], hyperEdges = [],
      attention = new_HyperGraphAttention dimn 4 () rnd, hg_dimension = dimn\<rparr>"

text \<open>\<open>addNode\<close> stores \<open>{system, type, embedding: {...embedding, system}}\<close>.\<close>

definition hg_addNode ::
  "HyperGraphNeuralNetwork \<Rightarrow> string \<Rightarrow> string \<Rightarrow> string \<Rightarrow> Embedding \<Rightarrow> HyperGraphNeuralNetwork" where
  "hg_addNode h nodeId sys ty emb =
     h\<lparr>hg_nodes := AList.update nodeId
         \<lparr>node_system = sys, node_type = ty, embedding = emb\<lparr>emb_system := Some sys\<rparr>\<rparr>
         (hg_nodes h)\<rparr>"

text \<open>The validation loop of \<open>addHyperEdge\<close>: the first missing key throws.\<close>

fun validate_nodes :: "(string \<times> GraphNode) list \<Rightarrow> string list \<Rightarrow> hg_error option" where
  "validate_nodes ns [] = None"
| "validate_nodes ns (nodeId # rest) =
     (if map_of ns nodeId = None then Some (NodeNotFound nodeId) else validate_nodes ns rest)"

text \<open>
  \<open>addHyperEdge\<close> returns the thrown error or the new edge, together with the index after
  the call.
\<close>

definition addHyperEdge ::
  "HyperGraphNeuralNetwork \<Rightarrow> string \<Rightarrow> string list \<Rightarrow> string \<Rightarrow> real \<Rightarrow> (string \<times> string) list
     \<Rightarrow> (hg_error + HyperEdge) \<times> HyperGraphNeuralNetwork" where
  "addHyperEdge h edgeId nodeIds ty weight metadata =
     (case validate_nodes (hg_nodes h) nodeIds of
        Some e \<Rightarrow> (Inl e, h)
      | None \<Rightarrow>
          (let hyperEdge = \<lparr>edge_id = edgeId, edge_nodes = nodeIds, edge_type = ty,
                            edge_weight = weight, edge_metadata = metadata\<rparr>
           in (Inr hyperEdge, h\<lparr>hyperEdges := AList.update edgeId hyperEdge (hyperEdges h)\<rparr>)))"

definition getNode :: "HyperGraphNeuralNetwork \<Rightarrow> string \<Rightarrow> GraphNode option" where
  "getNode h nodeId = map_of (hg_nodes h) nodeId"

definition getHyperEdge :: "HyperGraphNeuralNetwork \<Rightarrow> string \<Rightarrow> HyperEdge option" where
  "getHyperEdge h edgeId = map_of (hyperEdges h) edgeId"

subsection \<open>Network insights\<close>

text \<open>JavaScript \<open>/\<close> on two non-negative counts.\<close>

definition js_divide :: "nat \<Rightarrow> nat \<Rightarrow> jsnum" where
  "js_divide a b =
     (if b = 0 then (if a = 0 then NaN else PosInfinity) else Number (real a / real b))"

text \<open>
  \<open>counts[key] = (counts[key] || 0) + 1\<close> on a plain object, for keys that are not names
  of members of \<open>Object.prototype\<close> (for \<open>__proto__\<close> or \<open>constructor\<close> the source does not
  count).
\<close>

definition bump :: "(string \<rightharpoonup> nat) \<Rightarrow> string \<Rightarrow> (string \<rightharpoonup> nat)" where
  "bump counts k = counts(k \<mapsto> (case counts k of None \<Rightarrow> 0 | Some c \<Rightarrow> c) + 1)"

record NetworkInsights =
  totalNodes :: nat
  totalHyperEdges :: nat
  systemDistribution :: "string \<rightharpoonup> nat"
  edgeTypeDistribution :: "string \<rightharpoonup> nat"
  avgNodesPerEdge :: jsnum

definition getNetworkInsights :: "HyperGraphNeuralNetwork \<Rightarrow> NetworkInsights" where
  "getNetworkInsights h =
     \<lparr>totalNodes = length (hg_nodes h),
      totalHyperEdges = length (hyperEdges h),
      systemDistribution =
        foldl (\<lambda>counts node. bump counts (node_system node)) Map.empty (map snd (hg_nodes h)),
      edgeTypeDistribution =
        foldl (\<lambda>counts edge. bump counts (edge_type edge)) Map.empty (map snd (hyperEdges h)),
      avgNodesPerEdge =
        js_divide (foldl (\<lambda>sum edge. sum + length (edge_nodes edge)) 0 (map snd (hyperEdges h)))
                  (length (hyperEdges h))\<rparr>"

subsection \<open>Propagation\<close>

text \<open>
  One round of \<open>propagate\<close> walks the relevant edges and their nodes; the \<open>Set\<close>
  \<open>visited\<close> of the source is \<open>seen\<close>, the list of its elements in insertion order. The loop counter of
  the source is only compared with \<open>hops\<close>, so the loop is a recursion on the rounds that
  remain; \<open>break\<close> returns the state, \<open>continue\<close> goes on with the next round.
\<close>

fun collect_nodes ::
  "(string \<times> GraphNode) list \<Rightarrow> string list \<Rightarrow> string list \<times> Embedding list
     \<Rightarrow> string list \<times> Embedding list" where
  "collect_nodes ns [] st = st"
| "collect_nodes ns (nodeId # rest) (seen, neighborEmbeddings) =
     collect_nodes ns rest
       (if nodeId \<notin> set seen then
          (seen @ [nodeId],
           case map_of ns nodeId of
             Some node \<Rightarrow> neighborEmbeddings @ [embedding node]
           | None \<Rightarrow> neighborEmbeddings)
        else (seen, neighborEmbeddings))"

fun collect_edges ::
  "(string \<times> GraphNode) list \<Rightarrow> HyperEdge list \<Rightarrow> string list \<times> Embedding list
     \<Rightarrow> string list \<times> Embedding list" where
  "collect_edges ns [] st = st"
| "collect_edges ns (edge # rest) st = collect_edges ns rest (collect_nodes ns (edge_nodes edge) st)"

fun propagate_loop ::
  "HyperGraphNeuralNetwork \<Rightarrow> nat \<Rightarrow> Embedding \<times> string list \<Rightarrow> hg_error + Embedding \<times> string list" where
  "propagate_loop h 0 st = Inr st"
| "propagate_loop h (Suc remaining) (currentEmbedding, seen) =
     (let relevantEdges = filter (\<lambda>edge. \<exists>nodeId\<in>set (edge_nodes edge). nodeId \<in> set seen)
                            (map snd (hyperEdges h))
      in if relevantEdges = [] then Inr (currentEmbedding, seen)
         else
           (case collect_edges (hg_nodes h) relevantEdges (seen, []) of
              (seen', neighborEmbeddings) \<Rightarrow>
                if neighborEmbeddings = [] then propagate_loop h remaining (currentEmbedding, seen')
                else
                  (let attentionScores =
                         computeAttention (attention h) currentEmbedding neighborEmbeddings
                   in case fromMultipleEmbeddings (currentEmbedding # neighborEmbeddings)
                             (Some (0.5 # map (\<lambda>s. 0.5 * s) attentionScores)) of
                        Inl e \<Rightarrow> Inl e
                      | Inr updatedEmb \<Rightarrow> propagate_loop h remaining (updatedEmb, seen'))))"

record PropagateResult =
  pr_nodeId :: string
  pr_embedding :: Embedding
  hopsCompleted :: nat
  nodesVisited :: nat

definition propagate :: "HyperGraphNeuralNetwork \<Rightarrow> string \<Rightarrow> nat \<Rightarrow> hg_error + PropagateResult" where
  "propagate h targetNodeId hops =
     (case map_of (hg_nodes h) targetNodeId of
        None \<Rightarrow> Inl (TargetNodeNotFound targetNodeId)
      | Some target \<Rightarrow>
          (case propagate_loop h hops (embedding target, [targetNodeId]) of
             Inl e \<Rightarrow> Inl e
           | Inr (currentEmbedding, seen) \<Rightarrow>
               Inr \<lparr>pr_nodeId = targetNodeId, pr_embedding = currentEmbedding,
                     hopsCompleted = hops, nodesVisited = length seen\<rparr>))"

subsection \<open>Cross-domain paths\<close>





definition path_weight :: "nat \<Rightarrow> nat \<Rightarrow> string list \<Rightarrow> nat" where
  "path_weight b maxHops path = b ^ (maxHops - length path)"

definition queue_weight :: "nat \<Rightarrow> nat \<Rightarrow> string list list \<Rightarrow> nat" where
  "queue_weight b maxHops queue = sum_list (map (path_weight b maxHops) queue)"

lemma queue_weight_append [simp]:
  "queue_weight b k (q @ q') = queue_weight b k q + queue_weight b k q'"
  by (simp add: queue_weight_def)

lemma queue_weight_Cons [simp]:
  "queue_weight b k (p # q) = path_weight b k p + queue_weight b k q"
  by (simp add: queue_weight_def)

lemma queue_weight_Nil [simp]: "queue_weight b k [] = 0"
  by (simp add: queue_weight_def)








section \<open>Concrete graphs and indexes\<close>

text \<open>
  Nodes \<open>scm:s1\<close>, \<open>crm:c1\<close>, \<open>mrp:m1\<close> and the hyperedge \<open>e1\<close> over all three; an index
  with the single node \<open>scm:s1\<close> and no edge; matrices a caller might supply.
\<close>

definition empty_index :: HyperGraphNeuralNetwork where
  "empty_index = new_HyperGraphNeuralNetwork 2 (\<lambda>k. 1/2)"

definition emb :: "real list \<Rightarrow> Embedding" where
  "emb v = \<lparr>vector = v, dimension = length v, emb_system = None, contributors = []\<rparr>"

definition scenario_nodes :: HyperGraphNeuralNetwork where
  "scenario_nodes =
     hg_addNode (hg_addNode (hg_addNode empty_index
       ''scm:s1'' ''scm'' ''entity'' (emb [1, 0]))
       ''crm:c1'' ''crm'' ''entity'' (emb [0, 1]))
       ''mrp:m1'' ''mrp'' ''entity'' (emb [1, 1])"

definition scenario_index :: HyperGraphNeuralNetwork where
  "scenario_index =
     snd (addHyperEdge scenario_nodes ''e1'' [''scm:s1'', ''crm:c1'', ''mrp:m1'']
            ''supply_chain_integration'' (9/10) [])"

definition lonely_index :: HyperGraphNeuralNetwork where
  "lonely_index = hg_addNode empty_index ''scm:s1'' ''scm'' ''entity'' (emb [1, 0])"

lemmas index_eval = scenario_index_def scenario_nodes_def lonely_index_def empty_index_def
  new_HyperGraphNeuralNetwork_def new_HyperGraphAttention_def hg_addNode_def addHyperEdge_def
  emb_def Let_def

definition supplied :: "real list list list" where
  "supplied = [[[1]]]"

text \<open>
  Independent nodes \<open>A\<close>, \<open>B\<close> and a node \<open>C\<close> with inputs \<open>[A, B]\<close>; then \<open>A\<close> is added
  again with input \<open>C\<close>, once on the fresh graph and once after the order has been built.
\<close>

definition crm :: "string system" where
  "crm = [''getCRMAnalytics'' \<mapsto> (\<lambda>args ins. Inr ''analytics''),
          ''predictChurn'' \<mapsto> (\<lambda>args ins. Inl ''customer not found'')]"

definition abc :: "string ComputationalGraph" where
  "abc = addNode (addNode (addNode (registerSystem newGraph ''crm'' crm)
     ''A'' ''crm'' ''getCRMAnalytics'' [])
     ''B'' ''crm'' ''getCRMAnalytics'' [])
     ''C'' ''crm'' ''getCRMAnalytics'' [''A'', ''B'']"



text \<open>
  A chain \<open>n1\<close>, \<open>n2\<close>, \<open>n3\<close> whose middle operation is rejected by its system, the same
  chain without \<open>n1\<close>, and a node \<open>A\<close> whose input \<open>X\<close> was never added.
\<close>

definition failing :: "string ComputationalGraph" where
  "failing = addNode (addNode (addNode (registerSystem newGraph ''crm'' crm)
     ''n1'' ''crm'' ''getCRMAnalytics'' [])
     ''n2'' ''crm'' ''predictChurn:c9'' [''n1''])
     ''n3'' ''crm'' ''getCRMAnalytics'' [''n2'']"

definition failing_first :: "string ComputationalGraph" where
  "failing_first = addNode (addNode (registerSystem newGraph ''crm'' crm)
     ''n2'' ''crm'' ''predictChurn:c9'' [''n1''])
     ''n3'' ''crm'' ''getCRMAnalytics'' [''n2'']"

definition dangling :: "string ComputationalGraph" where
  "dangling = addNode (registerSystem newGraph ''crm'' crm)
     ''A'' ''crm'' ''getCRMAnalytics'' [''X'']"

lemmas graph_eval =
  addNode_def newGraph_def registerSystem_def addOutput_def buildExecutionOrder_def visit.simps
  execute_def run_node_def executeOperation_def crm_def setStatus_def setResult_def

section \<open>Properties of the computational graph\<close>

subsection \<open>Invariants of the traversal\<close>

definition good :: "(string \<times> 'r ComputationalNode) list \<Rightarrow> dfs \<Rightarrow> bool" where
  "good ns s \<longleftrightarrow>
     visited s = set (order s) \<and> distinct (order s) \<and>
     (\<forall>n node i. n \<in> set (order s) \<longrightarrow> map_of ns n = Some node \<longrightarrow> i \<in> set (inputs node)
        \<longrightarrow> precedes (order s) i n)"

definition frame :: "dfs \<Rightarrow> dfs \<Rightarrow> bool" where
  "frame s s' \<longleftrightarrow>
     tempMark s' = tempMark s \<and> visited s \<subseteq> visited s' \<and>
     (visited s' - visited s) \<inter> tempMark s = {}"

lemma precedes_append: "precedes xs i n \<Longrightarrow> precedes (xs @ ys) i n"
proof -
  assume "precedes xs i n"
  then obtain a b where "a < b" "b < length xs" "xs ! a = i" "xs ! b = n"
    by (auto simp: precedes_def)
  then have "a < b \<and> b < length (xs @ ys) \<and> (xs @ ys) ! a = i \<and> (xs @ ys) ! b = n"
    by (simp add: nth_append)
  then show ?thesis unfolding precedes_def by blast
qed

lemma precedes_last: "i \<in> set xs \<Longrightarrow> precedes (xs @ [n]) i n"
proof -
  assume "i \<in> set xs"
  then obtain a where "a < length xs" "xs ! a = i" by (auto simp: in_set_conv_nth)
  then have "a < length xs \<and> length xs < length (xs @ [n]) \<and> (xs @ [n]) ! a = i
      \<and> (xs @ [n]) ! length xs = n"
    by (simp add: nth_append)
  then show ?thesis unfolding precedes_def by blast
qed

lemma precedes_trans:
  assumes "distinct xs" "precedes xs k j" "precedes xs j m"
  shows "precedes xs k m"
proof -
  from assms(2) obtain a b where ab: "a < b" "b < length xs" "xs ! a = k" "xs ! b = j"
    by (auto simp: precedes_def)
  from assms(3) obtain c d where cd: "c < d" "d < length xs" "xs ! c = j" "xs ! d = m"
    by (auto simp: precedes_def)
  from cd have "c < length xs" by simp
  with ab cd nth_eq_iff_index_eq [OF assms(1), of b c] have "b = c" by simp
  with ab cd have "a < d \<and> d < length xs \<and> xs ! a = k \<and> xs ! d = m" by simp
  then show ?thesis unfolding precedes_def by blast
qed


lemma good_tempMark [simp]: "good ns (s\<lparr>tempMark := t\<rparr>) = good ns s"
  by (simp add: good_def)

lemma good_push:
  assumes "good ns s" and "n \<notin> visited s"
    and "\<And>node. map_of ns n = Some node \<Longrightarrow> set (inputs node) \<subseteq> visited s"
  shows "good ns (s\<lparr>tempMark := t, visited := insert n (visited s), order := order s @ [n]\<rparr>)"
proof -
  from assms(1) have v: "visited s = set (order s)" and d: "distinct (order s)"
    and p: "\<And>m node i. m \<in> set (order s) \<Longrightarrow> map_of ns m = Some node \<Longrightarrow> i \<in> set (inputs node)
              \<Longrightarrow> precedes (order s) i m"
    by (auto simp: good_def)
  have "precedes (order s @ [n]) i m"
    if "m \<in> set (order s @ [n])" "map_of ns m = Some node" "i \<in> set (inputs node)" for m node i
  proof (cases "m = n")
    case True
    with that assms(3) v have "i \<in> set (order s)" by auto
    with True show ?thesis by (simp add: precedes_last)
  next
    case False
    with that have "m \<in> set (order s)" by simp
    from p [OF this that(2,3)] show ?thesis by (rule precedes_append)
  qed
  with v d assms(2) show ?thesis by (simp add: good_def)
qed

lemma frame_refl [simp]: "frame s s"
  by (simp add: frame_def)

lemma frame_trans: "frame s s1 \<Longrightarrow> frame s1 s2 \<Longrightarrow> frame s s2"
  by (auto simp: frame_def)

lemma visit_good:
  "good ns s \<Longrightarrow> visit ns nodeId s = Inr s' \<Longrightarrow>
     good ns s' \<and> frame s s' \<and> nodeId \<in> visited s'"
  "good ns s \<Longrightarrow> visit_inputs ns ids s = Inr s' \<Longrightarrow>
     good ns s' \<and> frame s s' \<and> set ids \<subseteq> visited s'"
proof (induction ns nodeId s and ns ids s arbitrary: s' and s' rule: visit_visit_inputs.induct)
  case (1 ns nodeId s)
  note eq = visit.simps [of ns nodeId s]
  from "1.prems"(2) eq have nt: "nodeId \<notin> tempMark s" by (auto split: if_splits)
  show ?case
  proof (cases "nodeId \<in> visited s")
    case True
    with "1.prems" eq nt show ?thesis by simp
  next
    case nv: False
    let ?s1 = "s\<lparr>tempMark := insert nodeId (tempMark s)\<rparr>"
    have "\<exists>s2. s' = s2\<lparr>tempMark := tempMark s2 - {nodeId},
                              visited := insert nodeId (visited s2),
                              order := order s2 @ [nodeId]\<rparr> \<and>
            good ns s2 \<and> frame ?s1 s2 \<and>
            (\<forall>node. map_of ns nodeId = Some node \<longrightarrow> set (inputs node) \<subseteq> visited s2)"
    proof (cases "map_of ns nodeId")
      case None
      with "1.prems"(2) eq nt nv
      have "s' = ?s1\<lparr>tempMark := tempMark ?s1 - {nodeId},
                              visited := insert nodeId (visited ?s1),
                              order := order ?s1 @ [nodeId]\<rparr>" by auto
      with "1.prems"(1) None show ?thesis
        by (intro exI [of _ ?s1]) simp
    next
      case (Some node)
      with "1.prems"(2) eq nt nv obtain s2 where
        s2: "visit_inputs ns (inputs node) ?s1 = Inr s2"
        and s': "s' = s2\<lparr>tempMark := tempMark s2 - {nodeId},
                              visited := insert nodeId (visited s2),
                              order := order s2 @ [nodeId]\<rparr>"
        by (auto split: sum.splits)
      from "1.IH" [OF nt nv Some _ s2] "1.prems"(1)
      have "good ns s2 \<and> frame ?s1 s2 \<and> set (inputs node) \<subseteq> visited s2" by simp
      with s' Some show ?thesis by auto
    qed
    then obtain s2 where s': "s' = s2\<lparr>tempMark := tempMark s2 - {nodeId},
                              visited := insert nodeId (visited s2),
                              order := order s2 @ [nodeId]\<rparr>"
      and g2: "good ns s2" and f2: "frame ?s1 s2"
      and ins: "\<And>node. map_of ns nodeId = Some node \<Longrightarrow> set (inputs node) \<subseteq> visited s2"
      by blast
    from f2 nv have nv2: "nodeId \<notin> visited s2" by (auto simp: frame_def)
    from good_push [OF g2 nv2 ins] s' have "good ns s'" by simp
    moreover from f2 nt have "frame s s'" by (auto simp: frame_def s')
    moreover have "nodeId \<in> visited s'" by (simp add: s')
    ultimately show ?thesis by simp
  qed
next
  case (2 ns s)
  then show ?case by simp
next
  case (3 ns inputId rest s)
  from "3.prems"(2) obtain s1 where
    s1: "visit ns inputId s = Inr s1" and r: "visit_inputs ns rest s1 = Inr s'"
    by (auto split: sum.splits)
  from "3.IH"(1) [OF "3.prems"(1) s1]
  have g1: "good ns s1" and f1: "frame s s1" and i1: "inputId \<in> visited s1" by simp_all
  from "3.IH"(2) [OF s1 g1 r]
  have g': "good ns s'" and f': "frame s1 s'" and r': "set rest \<subseteq> visited s'" by simp_all
  from i1 f' have "inputId \<in> visited s'" by (auto simp: frame_def)
  with g' frame_trans [OF f1 f'] r' show ?case by simp
qed

lemma visit_keys_good:
  "good ns s \<Longrightarrow> visit_keys ns ks s = Inr s' \<Longrightarrow>
     good ns s' \<and> frame s s' \<and> set ks \<subseteq> visited s'"
proof (induction ks arbitrary: s)
  case Nil
  then show ?case by simp
next
  case (Cons k ks)
  show ?case
  proof (cases "k \<in> visited s")
    case True
    with Cons.prems have "visit_keys ns ks s = Inr s'" by simp
    from Cons.IH [OF Cons.prems(1) this] True show ?thesis by (auto simp: frame_def)
  next
    case False
    with Cons.prems(2) obtain s1 where
      s1: "visit ns k s = Inr s1" and r: "visit_keys ns ks s1 = Inr s'"
      by (auto split: sum.splits)
    from visit_good(1) [OF Cons.prems(1) s1]
    have g1: "good ns s1" and f1: "frame s s1" and k1: "k \<in> visited s1" by simp_all
    from Cons.IH [OF g1 r]
    have g': "good ns s'" and f': "frame s1 s'" and r': "set ks \<subseteq> visited s'" by simp_all
    from k1 f' have "k \<in> visited s'" by (auto simp: frame_def)
    with g' frame_trans [OF f1 f'] r' show ?thesis by simp
  qed
qed

lemma visit_cycle:
  "good ns s \<Longrightarrow> visit ns nodeId s = Inl e \<Longrightarrow> \<forall>m\<in>tempMark s. (depends ns)\<^sup>+\<^sup>+ m nodeId \<Longrightarrow>
     \<exists>x. e = CycleDetected x \<and> on_cycle ns x"
  "good ns s \<Longrightarrow> visit_inputs ns ids s = Inl e \<Longrightarrow>
     \<forall>m\<in>tempMark s. \<forall>i\<in>set ids. (depends ns)\<^sup>+\<^sup>+ m i \<Longrightarrow>
     \<exists>x. e = CycleDetected x \<and> on_cycle ns x"
proof (induction ns nodeId s and ns ids s arbitrary: e and e rule: visit_visit_inputs.induct)
  case (1 ns nodeId s)
  note eq = visit.simps [of ns nodeId s]
  show ?case
  proof (cases "nodeId \<in> tempMark s")
    case True
    with "1.prems"(2) eq have "e = CycleDetected nodeId" by simp
    with True "1.prems"(3) show ?thesis by (auto simp: on_cycle_def)
  next
    case nt: False
    with "1.prems"(2) eq have nv: "nodeId \<notin> visited s" by (auto split: if_splits)
    let ?s1 = "s\<lparr>tempMark := insert nodeId (tempMark s)\<rparr>"
    from "1.prems"(2) eq nt nv obtain node where
      node: "map_of ns nodeId = Some node" and
      err: "visit_inputs ns (inputs node) ?s1 = Inl e"
      by (auto split: option.splits sum.splits)
    have "\<forall>m\<in>tempMark ?s1. \<forall>i\<in>set (inputs node). (depends ns)\<^sup>+\<^sup>+ m i"
    proof (intro ballI)
      fix m i assume m: "m \<in> tempMark ?s1" and i: "i \<in> set (inputs node)"
      from node i have d: "depends ns nodeId i" by (auto simp: depends_def)
      show "(depends ns)\<^sup>+\<^sup>+ m i"
      proof (cases "m = nodeId")
        case True
        with d show ?thesis by auto
      next
        case False
        with m "1.prems"(3) have "(depends ns)\<^sup>+\<^sup>+ m nodeId" by simp
        then show ?thesis using d by (rule tranclp.trancl_into_trancl)
      qed
    qed
    from "1.IH" [OF nt nv node _ err this] "1.prems"(1) show ?thesis by simp
  qed
next
  case (2 ns s)
  then show ?case by simp
next
  case (3 ns inputId rest s)
  show ?case
  proof (cases "visit ns inputId s")
    case (Inl e1)
    with "3.prems"(2) have "e1 = e" by simp
    with Inl "3.IH"(1) [OF "3.prems"(1), of e] "3.prems"(3) show ?thesis by simp
  next
    case (Inr s1)
    with "3.prems"(2) have r: "visit_inputs ns rest s1 = Inl e" by simp
    from visit_good(1) [OF "3.prems"(1) Inr]
    have g1: "good ns s1" and f1: "frame s s1" by simp_all
    from f1 "3.prems"(3) have "\<forall>m\<in>tempMark s1. \<forall>i\<in>set rest. (depends ns)\<^sup>+\<^sup>+ m i"
      by (simp add: frame_def)
    from "3.IH"(2) [OF Inr g1 r this] show ?thesis .
  qed
qed

lemma visit_keys_cycle:
  "good ns s \<Longrightarrow> tempMark s = {} \<Longrightarrow> visit_keys ns ks s = Inl e \<Longrightarrow>
     \<exists>x. e = CycleDetected x \<and> on_cycle ns x"
proof (induction ks arbitrary: s)
  case Nil
  then show ?case by simp
next
  case (Cons k ks)
  show ?case
  proof (cases "k \<in> visited s")
    case True
    with Cons.prems have "visit_keys ns ks s = Inl e" by simp
    from Cons.IH [OF Cons.prems(1,2) this] show ?thesis .
  next
    case False
    show ?thesis
    proof (cases "visit ns k s")
      case (Inl e1)
      with False Cons.prems(3) have "e1 = e" by simp
      with Inl visit_cycle(1) [OF Cons.prems(1), of k e] Cons.prems(2) show ?thesis by simp
    next
      case (Inr s1)
      with False Cons.prems(3) have r: "visit_keys ns ks s1 = Inl e" by simp
      from visit_good(1) [OF Cons.prems(1) Inr]
      have g1: "good ns s1" and f1: "frame s s1" by simp_all
      from f1 Cons.prems(2) have "tempMark s1 = {}" by (simp add: frame_def)
      from Cons.IH [OF g1 this r] show ?thesis .
    qed
  qed
qed

lemma good_init: "good ns \<lparr>visited = {}, tempMark = {}, order = []\<rparr>"
  by (simp add: good_def)

lemma buildExecutionOrder_Inr:
  assumes "buildExecutionOrder g = (Inr ord, g')"
  shows "\<exists>s. good (nodes g) s \<and> fst ` set (nodes g) \<subseteq> set (order s) \<and> ord = order s
           \<and> g' = g\<lparr>executionOrder := ord\<rparr>"
proof -
  let ?s0 = "\<lparr>visited = {}, tempMark = {}, order = []\<rparr>"
  from assms obtain s where
    s: "visit_keys (nodes g) (map fst (nodes g)) ?s0 = Inr s" and o: "ord = order s"
    and g': "g' = g\<lparr>executionOrder := ord\<rparr>"
    by (auto simp: buildExecutionOrder_def split: sum.splits)
  from visit_keys_good [OF good_init s]
  have "good (nodes g) s" and "set (map fst (nodes g)) \<subseteq> visited s" by simp_all
  then show ?thesis using o g' by (auto simp: good_def)
qed

lemma buildExecutionOrder_Inl:
  assumes "buildExecutionOrder g = (Inl e, g')"
  shows "g' = g \<and> (\<exists>x. e = CycleDetected x \<and> on_cycle (nodes g) x)"
proof -
  let ?s0 = "\<lparr>visited = {}, tempMark = {}, order = []\<rparr>"
  from assms have
    s: "visit_keys (nodes g) (map fst (nodes g)) ?s0 = Inl e" and g': "g' = g"
    by (auto simp: buildExecutionOrder_def split: sum.splits)
  from visit_keys_cycle [OF good_init _ s] g' show ?thesis by simp
qed

lemma good_reach_precedes:
  assumes "good ns s" and "fst ` set ns \<subseteq> set (order s)" and "(depends ns)\<^sup>+\<^sup>+ a b"
  shows "precedes (order s) b a"
  using assms(3)
proof (induction rule: tranclp_induct)
  case (base b)
  then obtain node where n: "map_of ns a = Some node" "b \<in> set (inputs node)"
    by (auto simp: depends_def)
  then have "a \<in> fst ` set ns" by (metis map_of_SomeD fst_conv image_eqI)
  with assms(2) have "a \<in> set (order s)" by auto
  with assms(1) n show ?case by (auto simp: good_def)
next
  case (step b c)
  then obtain node where n: "map_of ns b = Some node" "c \<in> set (inputs node)"
    by (auto simp: depends_def)
  then have "b \<in> fst ` set ns" by (metis map_of_SomeD fst_conv image_eqI)
  with assms(2) have "b \<in> set (order s)" by auto
  with assms(1) n have "precedes (order s) c b" by (auto simp: good_def)
  moreover from assms(1) have "distinct (order s)" by (simp add: good_def)
  ultimately show ?case using step.IH by (blast intro: precedes_trans)
qed

text \<open>
  Claim C1. When \<open>buildExecutionOrder\<close> succeeds, the returned order lists every id once,
  and for every node \<open>n\<close> of the graph and every id \<open>i\<close> in its input list, \<open>i\<close> stands
  at an earlier position than \<open>n\<close>.
\<close>

theorem buildExecutionOrder_inputs_first:
  assumes "buildExecutionOrder g = (Inr ord, g')"
    and "map_of (nodes g) n = Some node" and "i \<in> set (inputs node)"
  shows "distinct ord \<and> (\<exists>a b. a < b \<and> b < length ord \<and> ord ! a = i \<and> ord ! b = n)"
proof -
  from buildExecutionOrder_Inr [OF assms(1)] obtain s where
    g: "good (nodes g) s" and k: "fst ` set (nodes g) \<subseteq> set (order s)" and o: "ord = order s"
    by blast
  from assms(2,3) have "(depends (nodes g))\<^sup>+\<^sup>+ n i" by (auto simp: depends_def)
  from good_reach_precedes [OF g k this] g o show ?thesis
    by (simp add: precedes_def good_def)
qed

theorem buildExecutionOrder_inputs_first_witness:
  "buildExecutionOrder abc = (Inr [''A'', ''B'', ''C''], abc\<lparr>executionOrder := [''A'', ''B'', ''C'']\<rparr>) \<and>
   map_of (nodes abc) ''C'' = Some \<lparr>node_id = ''C'', system = ''crm'', operation = ''getCRMAnalytics'',
      inputs = [''A'', ''B''], outputs = [], status = Pending, result = Null\<rparr> \<and>
   ''B'' \<in> set [''A'', ''B''] \<and>
   distinct [''A'', ''B'', ''C''] \<and>
   (\<exists>a b. a < b \<and> b < length [''A'', ''B'', ''C''] \<and> [''A'', ''B'', ''C''] ! a = ''B''
      \<and> [''A'', ''B'', ''C''] ! b = ''C'')"
proof -
  have b: "buildExecutionOrder abc
      = (Inr [''A'', ''B'', ''C''], abc\<lparr>executionOrder := [''A'', ''B'', ''C'']\<rparr>)"
    by (simp add: abc_def addNode_def newGraph_def registerSystem_def buildExecutionOrder_def
        visit.simps addOutput_def)
  have n: "map_of (nodes abc) ''C'' = Some \<lparr>node_id = ''C'', system = ''crm'',
      operation = ''getCRMAnalytics'', inputs = [''A'', ''B''], outputs = [],
      status = Pending, result = Null\<rparr>"
    by (simp add: abc_def addNode_def newGraph_def registerSystem_def addOutput_def)
  have i: "''B'' \<in> set (inputs \<lparr>node_id = ''C'', system = ''crm'',
      operation = ''getCRMAnalytics'', inputs = [''A'', ''B''], outputs = [],
      status = Pending, result = Null\<rparr>)"
    by simp
  from buildExecutionOrder_inputs_first [OF b n i] b n show ?thesis by simp
qed






subsection \<open>Invariants of the execution loop\<close>

text \<open>
  \<open>execute\<close> changes the status and the result of nodes, never their inputs, and it stores
  results only under ids of the graph. \<open>entry_ok\<close> says of a recorded call that its node is
  in the graph and that it received \<open>undefined\<close> for every input id the graph does not have.
\<close>

definition same_inputs ::
  "(string \<times> 'r ComputationalNode) list \<Rightarrow> (string \<times> 'r ComputationalNode) list \<Rightarrow> bool" where
  "same_inputs ns0 ns \<longleftrightarrow> (\<forall>m. map_option inputs (map_of ns m) = map_option inputs (map_of ns0 m))"

definition entry_ok :: "(string \<times> 'r ComputationalNode) list \<Rightarrow> 'r dispatch \<Rightarrow> bool" where
  "entry_ok ns0 d \<longleftrightarrow>
     (case d of (m, meth, args, ins) \<Rightarrow>
        (\<exists>nd. map_of ns0 m = Some nd \<and> length ins = length (inputs nd) \<and>
           (\<forall>k<length ins. map_of ns0 (inputs nd ! k) = None \<longrightarrow> ins ! k = None)))"

lemma order_lists_inputs:
  assumes "buildExecutionOrder g = (Inr ord, g')"
    and "map_of (nodes g) n = Some node" and "i \<in> set (inputs node)"
  shows "i \<in> set ord"
proof -
  from buildExecutionOrder_Inr [OF assms(1)] obtain s where
    g: "good (nodes g) s" and k: "fst ` set (nodes g) \<subseteq> set (order s)" and o: "ord = order s"
    by blast
  from assms(2,3) have "(depends (nodes g))\<^sup>+\<^sup>+ n i" by (auto simp: depends_def)
  from good_reach_precedes [OF g k this] o show ?thesis
    by (auto simp: precedes_def)
qed

lemma executeOperation_calls:
  "c \<in> set (snd (executeOperation sys opn ins)) \<Longrightarrow> snd (snd c) = ins"
  by (auto simp: executeOperation_def split: prod.splits option.splits sum.splits)

lemma run_node_calls:
  "c \<in> set (snd (run_node syss node ins)) \<Longrightarrow> snd (snd c) = ins"
  by (auto simp: run_node_def dest: executeOperation_calls split: option.splits)

lemma run_node_not_cycle: "fst (run_node syss node ins) \<noteq> Inl (CycleDetected x)"
  by (auto simp: run_node_def executeOperation_def split: option.splits prod.splits sum.splits)

lemma same_inputs_update:
  assumes "same_inputs ns0 ns" "map_of ns k = Some node" "inputs node' = inputs node"
  shows "same_inputs ns0 (AList.update k node' ns)"
  using assms unfolding same_inputs_def
  by (auto simp: update_conv' split: if_splits) (metis option.simps(9))+

lemma execute_loop_trace:
  assumes "execute_loop syss ord ns results tr = (out, ns', tr')"
    and "same_inputs ns0 ns"
    and "\<forall>m. map_of ns0 m = None \<longrightarrow> results m = None"
    and "\<forall>d\<in>set tr. entry_ok ns0 d"
  shows "\<forall>d\<in>set tr'. entry_ok ns0 d"
  using assms
proof (induction ord arbitrary: ns results tr)
  case Nil
  then show ?case by simp
next
  case (Cons nodeId rest)
  show ?case
  proof (cases "map_of ns nodeId")
    case None
    with Cons.prems(1) have "execute_loop syss rest ns results tr = (out, ns', tr')" by simp
    from Cons.IH [OF this Cons.prems(2,3,4)] show ?thesis .
  next
    case (Some node)
    let ?ins = "map results (inputs node)"
    obtain outcome calls where rn: "run_node syss node ?ins = (outcome, calls)"
      by (cases "run_node syss node ?ins")
    from Cons.prems(2) Some obtain nd0 where
      nd0: "map_of ns0 nodeId = Some nd0" "inputs nd0 = inputs node"
      unfolding same_inputs_def by (metis option.simps(9) option.map_sel map_option_eq_Some)
    have new: "entry_ok ns0 d" if "d \<in> set (map (Pair nodeId) calls)" for d
    proof -
      from that obtain c where c: "c \<in> set calls" "d = (nodeId, c)" by auto
      with run_node_calls [of c syss node ?ins] rn have "snd (snd c) = ?ins" by simp
      with c nd0 Cons.prems(3) show ?thesis
        by (cases c) (auto simp: entry_ok_def)
    qed
    with Cons.prems(4) have tr1: "\<forall>d\<in>set (tr @ map (Pair nodeId) calls). entry_ok ns0 d"
      by auto
    show ?thesis
    proof (cases outcome)
      case (Inl e)
      with Cons.prems(1) Some rn have "tr' = tr @ map (Pair nodeId) calls" by simp
      with tr1 show ?thesis by simp
    next
      case (Inr r)
      let ?ns1 = "AList.update nodeId (setResult (setStatus node Running) (Value r)) ns"
      from Inr Cons.prems(1) Some rn have
        l: "execute_loop syss rest ?ns1 (results(nodeId \<mapsto> r)) (tr @ map (Pair nodeId) calls)
              = (out, ns', tr')" by simp
      have s1: "same_inputs ns0 ?ns1"
        by (rule same_inputs_update [OF Cons.prems(2) Some]) (simp add: setResult_def setStatus_def)
      have r1: "\<forall>m. map_of ns0 m = None \<longrightarrow> (results(nodeId \<mapsto> r)) m = None"
        using Cons.prems(3) nd0 by auto
      from Cons.IH [OF l s1 r1 tr1] show ?thesis .
    qed
  qed
qed

lemma buildExecutionOrder_nodes: "nodes (snd (buildExecutionOrder g)) = nodes g"
  by (simp add: buildExecutionOrder_def split: sum.splits)

lemma buildExecutionOrder_systems: "systems (snd (buildExecutionOrder g)) = systems g"
  by (simp add: buildExecutionOrder_def split: sum.splits)

lemma execute_cases:
  assumes "execute g = (out, g', tr)"
  obtains (cycle) x where "out = Inl (CycleDetected x)" "g' = g" "tr = []"
  | (run) g1 ns where "nodes g1 = nodes g" "systems g1 = systems g"
      "execute_loop (systems g) (executionOrder g1) (nodes g) Map.empty [] = (out, ns, tr)"
      "g' = g1\<lparr>nodes := ns\<rparr>"
proof (cases "executionOrder g = []")
  case True
  show ?thesis
  proof (cases "buildExecutionOrder g")
    case (Pair built g1)
    show ?thesis
    proof (cases built)
      case (Inl e)
      with Pair buildExecutionOrder_Inl [of g e g1] True assms cycle show ?thesis
        by (auto simp: execute_def)
    next
      case (Inr ord)
      from Pair have "nodes g1 = nodes g" "systems g1 = systems g"
        using buildExecutionOrder_nodes [of g] buildExecutionOrder_systems [of g] by simp_all
      with Inr Pair True assms run [of g1] show ?thesis
        by (auto simp: execute_def split: prod.splits)
    qed
  qed
next
  case False
  with assms run [of g] show ?thesis by (auto simp: execute_def split: prod.splits)
qed

text \<open>
  The loop over a list that is split in two is the loop over the first part followed,
  if that part ran without a throw, by the loop over the second part from the state
  reached. A part that ran without a throw touched only its own ids, and left each of
  its nodes \<open>completed\<close> with a result.
\<close>

lemma execute_loop_append:
  "execute_loop syss (pre @ rest) ns results tr =
     (case execute_loop syss pre ns results tr of
        (Inr results1, ns1, tr1) \<Rightarrow> execute_loop syss rest ns1 results1 tr1
      | (Inl e, ns1, tr1) \<Rightarrow> (Inl e, ns1, tr1))"
proof (induction pre arbitrary: ns results tr)
  case Nil
  then show ?case by simp
next
  case (Cons nodeId pre)
  show ?case
  proof (cases "map_of ns nodeId")
    case None
    then show ?thesis by (simp add: Cons.IH)
  next
    case (Some node)
    obtain outcome calls where rn: "run_node syss node (map results (inputs node)) = (outcome, calls)"
      by (cases "run_node syss node (map results (inputs node))")
    show ?thesis
    proof (cases outcome)
      case (Inl e)
      with Some rn show ?thesis by simp
    next
      case (Inr r)
      let ?ns1 = "AList.update nodeId (setResult (setStatus node Running) (Value r)) ns"
      let ?res1 = "results(nodeId \<mapsto> r)"
      let ?tr1 = "tr @ map (Pair nodeId) calls"
      from Inr Some rn have
        a: "execute_loop syss ((nodeId # pre) @ rest) ns results tr
              = execute_loop syss (pre @ rest) ?ns1 ?res1 ?tr1"
        and b: "execute_loop syss (nodeId # pre) ns results tr
              = execute_loop syss pre ?ns1 ?res1 ?tr1"
        by simp_all
      show ?thesis unfolding a b by (rule Cons.IH)
    qed
  qed
qed

lemma execute_loop_success:
  assumes "execute_loop syss ord ns results tr = (Inr results1, ns1, tr1)"
  shows "(\<forall>m. m \<notin> set ord \<longrightarrow> map_of ns1 m = map_of ns m) \<and>
     (\<forall>d\<in>set tr1. d \<in> set tr \<or> fst d \<in> set ord) \<and>
     (\<forall>m\<in>set ord. \<forall>node. map_of ns m = Some node \<longrightarrow>
        (\<exists>r. map_of ns1 m = Some (node\<lparr>result := Value r, status := Completed\<rparr>)))"
  using assms
proof (induction ord arbitrary: ns results tr)
  case Nil
  then show ?case by simp
next
  case (Cons nodeId rest)
  show ?case
  proof (cases "map_of ns nodeId")
    case None
    with Cons.prems have "execute_loop syss rest ns results tr = (Inr results1, ns1, tr1)" by simp
    from Cons.IH [OF this] None show ?thesis by auto
  next
    case (Some node)
    let ?ins = "map results (inputs node)"
    obtain outcome calls where rn: "run_node syss node ?ins = (outcome, calls)"
      by (cases "run_node syss node ?ins")
    show ?thesis
    proof (cases outcome)
      case (Inl e)
      with Cons.prems Some rn show ?thesis by simp
    next
      case (Inr r)
      let ?node1 = "node\<lparr>result := Value r, status := Completed\<rparr>"
      let ?ns1 = "AList.update nodeId ?node1 ns"
      let ?tr1 = "tr @ map (Pair nodeId) calls"
      from Inr Cons.prems Some rn have
        "execute_loop syss rest ?ns1 (results(nodeId \<mapsto> r)) ?tr1 = (Inr results1, ns1, tr1)"
        by (simp add: setResult_def setStatus_def)
      from Cons.IH [OF this] have
        u: "\<forall>m. m \<notin> set rest \<longrightarrow> map_of ns1 m = map_of ?ns1 m"
        and t: "\<forall>d\<in>set tr1. d \<in> set ?tr1 \<or> fst d \<in> set rest"
        and c: "\<forall>m\<in>set rest. \<forall>nd. map_of ?ns1 m = Some nd \<longrightarrow>
          (\<exists>r. map_of ns1 m = Some (nd\<lparr>result := Value r, status := Completed\<rparr>))"
        by blast+
      from u have "\<forall>m. m \<notin> set (nodeId # rest) \<longrightarrow> map_of ns1 m = map_of ns m"
        by (simp add: update_conv')
      moreover from t have "\<forall>d\<in>set tr1. d \<in> set tr \<or> fst d \<in> set (nodeId # rest)"
        by auto
      moreover have "\<forall>m\<in>set (nodeId # rest). \<forall>nd. map_of ns m = Some nd \<longrightarrow>
          (\<exists>r. map_of ns1 m = Some (nd\<lparr>result := Value r, status := Completed\<rparr>))"
      proof (intro ballI allI impI)
        fix m nd assume m: "m \<in> set (nodeId # rest)" "map_of ns m = Some nd"
        show "\<exists>r. map_of ns1 m = Some (nd\<lparr>result := Value r, status := Completed\<rparr>)"
        proof (cases "m = nodeId")
          case True
          with m Some have nd: "nd = node" by simp
          show ?thesis
          proof (cases "nodeId \<in> set rest")
            case True
            have "map_of ?ns1 nodeId = Some ?node1" by (simp add: update_conv')
            with c True \<open>m = nodeId\<close> obtain r' where
              "map_of ns1 m = Some (?node1\<lparr>result := Value r', status := Completed\<rparr>)"
              by blast
            then have "map_of ns1 m = Some (nd\<lparr>result := Value r', status := Completed\<rparr>)"
              using nd by simp
            then show ?thesis by blast
          next
            case False
            with u \<open>m = nodeId\<close> have "map_of ns1 m = Some ?node1"
              by (simp add: update_conv')
            with nd show ?thesis by blast
          qed
        next
          case False
          with m have "m \<in> set rest" "map_of ?ns1 m = Some nd" by (simp_all add: update_conv')
          with c show ?thesis by blast
        qed
      qed
      ultimately show ?thesis by blast
    qed
  qed
qed

lemma execute_run:
  assumes "executionOrder g = ord \<and> ord \<noteq> [] \<or>
           executionOrder g = [] \<and> fst (buildExecutionOrder g) = Inr ord"
  shows "execute g =
     (case execute_loop (systems g) ord (nodes g) Map.empty [] of
        (out, ns, tr) \<Rightarrow> (out, g\<lparr>executionOrder := ord, nodes := ns\<rparr>, tr))"
  using assms
proof
  assume "executionOrder g = ord \<and> ord \<noteq> []"
  then show ?thesis by (auto simp: execute_def split: prod.splits)
next
  assume a: "executionOrder g = [] \<and> fst (buildExecutionOrder g) = Inr ord"
  then have "buildExecutionOrder g = (Inr ord, snd (buildExecutionOrder g))"
    by (metis prod.collapse)
  from buildExecutionOrder_Inr [OF this] this
  have "buildExecutionOrder g = (Inr ord, g\<lparr>executionOrder := ord\<rparr>)" by auto
  with a show ?thesis by (auto simp: execute_def split: prod.splits)
qed

text \<open>
  Claim C3, as the code has it. Let the order that \<open>execute\<close> runs (the stored one, or
  the one it builds when none is stored) be \<open>pre @ n # post\<close>, let the ids of \<open>pre\<close> run
  without a throw, and let the dispatch of \<open>n\<close> in the state then reached throw \<open>e\<close>. Then
  \<open>execute\<close> fails with exactly \<open>e\<close> and nothing else, the calls made are those of \<open>pre\<close>
  followed by those of \<open>n\<close>, every id that is neither \<open>n\<close> nor in \<open>pre\<close> keeps its node
  untouched and is never dispatched, and every node of \<open>pre\<close> is \<open>completed\<close> and carries
  its result.
\<close>

theorem execute_failure_stops:
  assumes order: "executionOrder g = pre @ n # post \<or>
                  executionOrder g = [] \<and> fst (buildExecutionOrder g) = Inr (pre @ n # post)"
    and before: "execute_loop (systems g) pre (nodes g) Map.empty [] = (Inr results1, ns1, tr1)"
    and node: "map_of ns1 n = Some node"
    and throws: "run_node (systems g) node (map results1 (inputs node)) = (Inl e, calls)"
  shows "\<exists>g'. execute g = (Inl e, g', tr1 @ map (Pair n) calls) \<and>
     (\<forall>m. m \<notin> set pre \<and> m \<noteq> n \<longrightarrow>
        map_of (nodes g') m = map_of (nodes g) m \<and>
        m \<notin> fst ` set (tr1 @ map (Pair n) calls)) \<and>
     (\<forall>m\<in>set pre. m \<noteq> n \<longrightarrow> (\<forall>nd. map_of (nodes g) m = Some nd \<longrightarrow>
        (\<exists>r. map_of (nodes g') m = Some (nd\<lparr>result := Value r, status := Completed\<rparr>))))"
proof -
  let ?failed = "setResult (setStatus (setStatus node Running) Failed) (ErrorObject (message e))"
  let ?ns' = "AList.update n ?failed ns1"
  let ?tr' = "tr1 @ map (Pair n) calls"
  let ?g' = "g\<lparr>executionOrder := pre @ n # post, nodes := ?ns'\<rparr>"
  have "execute_loop (systems g) (n # post) ns1 results1 tr1 = (Inl e, ?ns', ?tr')"
    using node throws by simp
  with before
  have l: "execute_loop (systems g) (pre @ n # post) (nodes g) Map.empty [] = (Inl e, ?ns', ?tr')"
    by (simp add: execute_loop_append)
  from order have "executionOrder g = pre @ n # post \<and> pre @ n # post \<noteq> [] \<or>
      executionOrder g = [] \<and> fst (buildExecutionOrder g) = Inr (pre @ n # post)" by simp
  from execute_run [OF this] have ex: "execute g = (Inl e, ?g', ?tr')"
    by (simp only: l prod.case)
  from execute_loop_success [OF before] have
    u: "\<forall>m. m \<notin> set pre \<longrightarrow> map_of ns1 m = map_of (nodes g) m"
    and t: "\<forall>d\<in>set tr1. fst d \<in> set pre"
    and c: "\<forall>m\<in>set pre. \<forall>nd. map_of (nodes g) m = Some nd \<longrightarrow>
          (\<exists>r. map_of ns1 m = Some (nd\<lparr>result := Value r, status := Completed\<rparr>))"
    by simp_all
  from u t have "\<forall>m. m \<notin> set pre \<and> m \<noteq> n \<longrightarrow>
        map_of (nodes ?g') m = map_of (nodes g) m \<and> m \<notin> fst ` set ?tr'"
    by (auto simp: update_conv')
  moreover from c have "\<forall>m\<in>set pre. m \<noteq> n \<longrightarrow> (\<forall>nd. map_of (nodes g) m = Some nd \<longrightarrow>
        (\<exists>r. map_of (nodes ?g') m = Some (nd\<lparr>result := Value r, status := Completed\<rparr>)))"
    by (simp add: update_conv')
  ultimately show ?thesis using ex by blast
qed

theorem execute_failure_stops_witness:
  "executionOrder failing = [] \<and>
   fst (buildExecutionOrder failing) = Inr ([''n1''] @ ''n2'' # [''n3'']) \<and>
   fst (execute_loop (systems failing) [''n1''] (nodes failing) Map.empty []) = Inr [''n1'' \<mapsto> ''analytics''] \<and>
   snd (snd (execute_loop (systems failing) [''n1''] (nodes failing) Map.empty []))
     = [(''n1'', ''getCRMAnalytics'', [], [])] \<and>
   run_node (systems failing)
      \<lparr>node_id = ''n2'', system = ''crm'', operation = ''predictChurn:c9'', inputs = [''n1''],
       outputs = [''n3''], status = Pending, result = Null\<rparr>
      (map [''n1'' \<mapsto> ''analytics''] [''n1''])
     = (Inl (OperationError ''customer not found''), [(''predictChurn'', [''c9''], [Some ''analytics''])]) \<and>
   fst (execute failing) = Inl (OperationError ''customer not found'') \<and>
   snd (snd (execute failing))
     = [(''n1'', ''getCRMAnalytics'', [], []), (''n2'', ''predictChurn'', [''c9''], [Some ''analytics''])] \<and>
   map_of (nodes (fst (snd (execute failing)))) ''n3'' = map_of (nodes failing) ''n3''"
proof -
  let ?node = "\<lparr>node_id = ''n2'', system = ''crm'', operation = ''predictChurn:c9'',
       inputs = [''n1''], outputs = [''n3''], status = Pending, result = Null\<rparr>
       :: string ComputationalNode"
  let ?ns1 = "[(''n1'', \<lparr>node_id = ''n1'', system = ''crm'', operation = ''getCRMAnalytics'',
        inputs = [], outputs = [''n2''], status = Completed, result = Value ''analytics''\<rparr>),
      (''n2'', ?node),
      (''n3'', \<lparr>node_id = ''n3'', system = ''crm'', operation = ''getCRMAnalytics'',
        inputs = [''n2''], outputs = [], status = Pending, result = Null\<rparr>)]"
  have o: "executionOrder failing = []"
    by (simp add: failing_def graph_eval)
  have b: "fst (buildExecutionOrder failing) = Inr ([''n1''] @ ''n2'' # [''n3''])"
    by (simp add: failing_def graph_eval)
  have p: "execute_loop (systems failing) [''n1''] (nodes failing) Map.empty []
      = (Inr [''n1'' \<mapsto> ''analytics''], ?ns1, [(''n1'', ''getCRMAnalytics'', [], [])])"
    by (simp add: failing_def graph_eval)
  have n: "map_of ?ns1 ''n2'' = Some ?node" by simp
  have t: "run_node (systems failing) ?node (map [''n1'' \<mapsto> ''analytics''] (inputs ?node))
      = (Inl (OperationError ''customer not found''), [(''predictChurn'', [''c9''], [Some ''analytics''])])"
    by (simp add: failing_def graph_eval)
  from o b have order: "executionOrder failing = [''n1''] @ ''n2'' # [''n3''] \<or>
      executionOrder failing = [] \<and> fst (buildExecutionOrder failing) = Inr ([''n1''] @ ''n2'' # [''n3''])"
    by simp
  let ?tr = "[(''n1'', ''getCRMAnalytics'', [], [])] @
         map (Pair ''n2'') [(''predictChurn'', [''c9''], [Some ''analytics''])]"
  have "\<exists>g'. execute failing = (Inl (OperationError ''customer not found''), g', ?tr) \<and>
     (\<forall>m. m \<notin> set [''n1''] \<and> m \<noteq> ''n2'' \<longrightarrow>
        map_of (nodes g') m = map_of (nodes failing) m \<and> m \<notin> fst ` set ?tr) \<and>
     (\<forall>m\<in>set [''n1'']. m \<noteq> ''n2'' \<longrightarrow> (\<forall>nd. map_of (nodes failing) m = Some nd \<longrightarrow>
        (\<exists>r. map_of (nodes g') m = Some (nd\<lparr>result := Value r, status := Completed\<rparr>))))"
    by (rule execute_failure_stops [OF order p n t])
  then obtain g' where
    e: "execute failing = (Inl (OperationError ''customer not found''), g', ?tr)"
    and u: "\<forall>m. m \<notin> set [''n1''] \<and> m \<noteq> ''n2'' \<longrightarrow>
        map_of (nodes g') m = map_of (nodes failing) m \<and> m \<notin> fst ` set ?tr"
    by (elim exE conjE)
  from u [rule_format, of "''n3''"]
  have n3: "map_of (nodes g') ''n3'' = map_of (nodes failing) ''n3''" by simp
  have "fst (execute failing) = Inl (OperationError ''customer not found'')"
    and "snd (snd (execute failing)) = [(''n1'', ''getCRMAnalytics'', [], []),
          (''n2'', ''predictChurn'', [''c9''], [Some ''analytics''])]"
    and "map_of (nodes (fst (snd (execute failing)))) ''n3'' = map_of (nodes failing) ''n3''"
    using n3 by (simp_all add: e)
  moreover from p have
    "fst (execute_loop (systems failing) [''n1''] (nodes failing) Map.empty []) = Inr [''n1'' \<mapsto> ''analytics'']"
    and "snd (snd (execute_loop (systems failing) [''n1''] (nodes failing) Map.empty []))
     = [(''n1'', ''getCRMAnalytics'', [], [])]"
    by simp_all
  moreover from t have "run_node (systems failing) ?node (map [''n1'' \<mapsto> ''analytics''] [''n1''])
      = (Inl (OperationError ''customer not found''), [(''predictChurn'', [''c9''], [Some ''analytics''])])"
    by simp
  ultimately show ?thesis using o b by (intro conjI)
qed

text \<open>
  Every failing run of the loop is of this kind: it has a first id whose dispatch throws
  the error returned, after a part that ran without a throw.
\<close>

lemma execute_loop_first_throw:
  assumes "execute_loop syss ord ns results tr = (Inl e, ns', tr')"
  shows "\<exists>pre n post results1 ns1 tr1 node calls.
     ord = pre @ n # post \<and>
     execute_loop syss pre ns results tr = (Inr results1, ns1, tr1) \<and>
     map_of ns1 n = Some node \<and>
     run_node syss node (map results1 (inputs node)) = (Inl e, calls)"
  using assms
proof (induction ord arbitrary: ns results tr)
  case Nil
  then show ?case by simp
next
  case (Cons nodeId rest)
  show ?case
  proof (cases "map_of ns nodeId")
    case None
    with Cons.prems have "execute_loop syss rest ns results tr = (Inl e, ns', tr')" by simp
    from Cons.IH [OF this] obtain pre n post results1 ns1 tr1 node calls where
      f: "rest = pre @ n # post"
        "execute_loop syss pre ns results tr = (Inr results1, ns1, tr1)"
        "map_of ns1 n = Some node"
        "run_node syss node (map results1 (inputs node)) = (Inl e, calls)"
      by blast
    from f(1) have "nodeId # rest = (nodeId # pre) @ n # post" by simp
    moreover from f(2) None
    have "execute_loop syss (nodeId # pre) ns results tr = (Inr results1, ns1, tr1)" by simp
    ultimately show ?thesis using f(3,4) by blast
  next
    case (Some node)
    let ?ins = "map results (inputs node)"
    obtain outcome calls where rn: "run_node syss node ?ins = (outcome, calls)"
      by (cases "run_node syss node ?ins")
    show ?thesis
    proof (cases outcome)
      case (Inl e1)
      with Cons.prems Some rn have "e1 = e" by simp
      have "nodeId # rest = [] @ nodeId # rest"
        and "execute_loop syss [] ns results tr = (Inr results, ns, tr)" by simp_all
      with Some rn Inl \<open>e1 = e\<close> show ?thesis by blast
    next
      case (Inr r)
      let ?ns1 = "AList.update nodeId (setResult (setStatus node Running) (Value r)) ns"
      let ?res1 = "results(nodeId \<mapsto> r)"
      let ?tr1 = "tr @ map (Pair nodeId) calls"
      from Inr Some rn have
        b: "\<And>xs. execute_loop syss (nodeId # xs) ns results tr
              = execute_loop syss xs ?ns1 ?res1 ?tr1"
        by simp
      with Cons.prems have "execute_loop syss rest ?ns1 ?res1 ?tr1 = (Inl e, ns', tr')" by simp
      from Cons.IH [OF this] obtain pre n post results1 ns1 tr1 node1 calls1 where
        f: "rest = pre @ n # post"
          "execute_loop syss pre ?ns1 ?res1 ?tr1 = (Inr results1, ns1, tr1)"
          "map_of ns1 n = Some node1"
          "run_node syss node1 (map results1 (inputs node1)) = (Inl e, calls1)"
        by blast
      from f(1) have "nodeId # rest = (nodeId # pre) @ n # post" by simp
      moreover from f(2) b [of pre]
      have "execute_loop syss (nodeId # pre) ns results tr = (Inr results1, ns1, tr1)" by simp
      ultimately show ?thesis using f(3,4) by blast
    qed
  qed
qed

text \<open>
  What the claim says and the code does not do. The outcome of the failing run is the
  error alone: it is the same for the chain without \<open>n1\<close>, where no node had completed,
  as for the full chain, where \<open>n1\<close> had; the result of \<open>n1\<close> stays on its node. And the
  failing node itself does not end \<open>failed\<close>: after \<open>setStatus('failed')\<close> the call of
  \<open>setResult\<close> sets the status to \<open>completed\<close>.
\<close>

theorem failed_node_counterexample:
  "fst (execute failing) = Inl (OperationError ''customer not found'') \<and>
   map_option status (map_of (nodes (fst (snd (execute failing)))) ''n2'') = Some Completed \<and>
   map_option result (map_of (nodes (fst (snd (execute failing)))) ''n1'') = Some (Value ''analytics'') \<and>
   fst (execute failing_first) = Inl (OperationError ''customer not found'') \<and>
   map_of (nodes (fst (snd (execute failing_first)))) ''n1'' = None"
  by (simp add: failing_def failing_first_def graph_eval)

text \<open>
  Claim C8, as the code has it. An input id that is not in the graph raises no error at
  any stage: the only error of \<open>buildExecutionOrder\<close> is the cycle error, a successful
  order lists the absent id, and \<open>execute\<close> never dispatches the absent id but does
  dispatch the node that names it, passing \<open>undefined\<close> in the position of that input.
\<close>

theorem unknown_input_tolerated:
  assumes "map_of (nodes g) n = Some node" and "i \<in> set (inputs node)"
    and "map_of (nodes g) i = None"
  shows "(\<forall>e. fst (buildExecutionOrder g) = Inl e \<longrightarrow> (\<exists>x. e = CycleDetected x)) \<and>
         (\<forall>ord. fst (buildExecutionOrder g) = Inr ord \<longrightarrow> i \<in> set ord) \<and>
         (\<forall>d\<in>set (snd (snd (execute g))). fst d \<noteq> i \<and>
            (fst d = n \<longrightarrow> length (snd (snd (snd d))) = length (inputs node) \<and>
               (\<forall>k<length (inputs node). inputs node ! k = i \<longrightarrow> snd (snd (snd d)) ! k = None)))"
proof (intro conjI allI impI ballI)
  fix e assume "fst (buildExecutionOrder g) = Inl e"
  then have "buildExecutionOrder g = (Inl e, snd (buildExecutionOrder g))"
    by (metis prod.collapse)
  from buildExecutionOrder_Inl [OF this] show "\<exists>x. e = CycleDetected x" by blast
next
  fix ord assume "fst (buildExecutionOrder g) = Inr ord"
  then have "buildExecutionOrder g = (Inr ord, snd (buildExecutionOrder g))"
    by (metis prod.collapse)
  from order_lists_inputs [OF this assms(1,2)] show "i \<in> set ord" .
next
  fix d assume d: "d \<in> set (snd (snd (execute g)))"
  obtain out g' tr where ex: "execute g = (out, g', tr)" by (cases "execute g") auto
  have ok: "entry_ok (nodes g) d"
    using ex
  proof (cases rule: execute_cases)
    case (cycle x)
    with d ex show ?thesis by simp
  next
    case (run g1 ns)
    from execute_loop_trace [OF run(3), of "nodes g"] d ex show ?thesis
      by (simp add: same_inputs_def)
  qed
  then obtain m meth args ins nd where
    dd: "d = (m, meth, args, ins)" and nd: "map_of (nodes g) m = Some nd"
    and len: "length ins = length (inputs nd)"
    and und: "\<forall>k<length ins. map_of (nodes g) (inputs nd ! k) = None \<longrightarrow> ins ! k = None"
    by (cases d) (auto simp: entry_ok_def)
  from nd assms(3) dd show "fst d \<noteq> i" by auto
  {
    assume "fst d = n"
    with dd nd assms(1) have "nd = node" by simp
    with len dd show "length (snd (snd (snd d))) = length (inputs node)" by simp
    fix k assume "k < length (inputs node)" "inputs node ! k = i"
    with und len assms(3) \<open>nd = node\<close> dd show "snd (snd (snd d)) ! k = None" by simp
  }
qed

theorem unknown_input_tolerated_witness:
  "map_of (nodes dangling) ''A'' = Some \<lparr>node_id = ''A'', system = ''crm'',
      operation = ''getCRMAnalytics'', inputs = [''X''], outputs = [],
      status = Pending, result = Null\<rparr> \<and>
   ''X'' \<in> set [''X''] \<and> map_of (nodes dangling) ''X'' = None \<and>
   fst (buildExecutionOrder dangling) = Inr [''X'', ''A''] \<and> ''X'' \<in> set [''X'', ''A''] \<and>
   snd (snd (execute dangling)) = [(''A'', ''getCRMAnalytics'', [], [None])]"
proof -
  let ?node = "\<lparr>node_id = ''A'', system = ''crm'',
      operation = ''getCRMAnalytics'', inputs = [''X''], outputs = [],
      status = Pending, result = Null\<rparr> :: string ComputationalNode"
  have n: "map_of (nodes dangling) ''A'' = Some ?node"
    by (simp add: dangling_def graph_eval)
  have i: "''X'' \<in> set (inputs ?node)" by simp
  have x: "map_of (nodes dangling) ''X'' = None"
    by (simp add: dangling_def graph_eval)
  have b: "fst (buildExecutionOrder dangling) = Inr [''X'', ''A'']"
    by (simp add: dangling_def graph_eval)
  have t: "snd (snd (execute dangling)) = [(''A'', ''getCRMAnalytics'', [], [None])]"
    by (simp add: dangling_def graph_eval)
  from unknown_input_tolerated [OF n i x] b t n x show ?thesis by simp
qed
text \<open>
  Execution reaches the node \<open>A\<close> although its input \<open>X\<close> is absent: the order is
  \<open>[X, A]\<close>, no error is raised, and \<open>A\<close> is called with \<open>undefined\<close>.
\<close>

theorem unknown_input_counterexample:
  "map_of (nodes dangling) ''X'' = None \<and>
   map_option inputs (map_of (nodes dangling) ''A'') = Some [''X''] \<and>
   fst (buildExecutionOrder dangling) = Inr [''X'', ''A''] \<and>
   \<not> isl (fst (execute dangling)) \<and>
   snd (snd (execute dangling)) = [(''A'', ''getCRMAnalytics'', [], [None])]"
  by (simp add: dangling_def graph_eval)

section \<open>Properties of the hyper-graph index\<close>

lemma validate_nodes_missing:
  "\<exists>k\<in>set nodeIds. map_of ns k = None \<Longrightarrow>
   \<exists>k\<in>set nodeIds. map_of ns k = None \<and> validate_nodes ns nodeIds = Some (NodeNotFound k)"
  by (induction nodeIds) auto

lemma foldl_plus_length:
  "foldl (\<lambda>sum edge. sum + length (edge_nodes edge)) a es
     = a + sum_list (map (\<lambda>edge. length (edge_nodes edge)) es)"
  by (induction es arbitrary: a) auto

text \<open>
  Claim C4. When some entry of \<open>nodeIds\<close> is not a key of the node map, \<open>addHyperEdge\<close>
  fails with the error naming a missing key, and the index after the call is the index
  before it: node map and edge map, hence both counts, are unchanged.
\<close>

theorem addHyperEdge_atomic:
  assumes "\<exists>k\<in>set nodeIds. map_of (hg_nodes h) k = None"
  shows "\<exists>k\<in>set nodeIds. map_of (hg_nodes h) k = None \<and>
           addHyperEdge h edgeId nodeIds ty weight metadata = (Inl (NodeNotFound k), h)"
proof -
  from validate_nodes_missing [OF assms] obtain k where
    "k \<in> set nodeIds" "map_of (hg_nodes h) k = None"
    "validate_nodes (hg_nodes h) nodeIds = Some (NodeNotFound k)"
    by blast
  then show ?thesis
    by (auto simp: addHyperEdge_def)
qed

theorem addHyperEdge_atomic_witness:
  "(\<exists>k\<in>set [''scm:s1'', ''lms:l1'']. map_of (hg_nodes scenario_nodes) k = None) \<and>
   addHyperEdge scenario_nodes ''e2'' [''scm:s1'', ''lms:l1''] ''customer_training'' (8/10) []
     = (Inl (NodeNotFound ''lms:l1''), scenario_nodes)"
proof -
  have h: "\<exists>k\<in>set [''scm:s1'', ''lms:l1'']. map_of (hg_nodes scenario_nodes) k = None"
    by (simp add: index_eval)
  from addHyperEdge_atomic [OF h, of "''e2''" "''customer_training''" "8/10" "[]"]
  obtain k where k: "map_of (hg_nodes scenario_nodes) k = None"
    "addHyperEdge scenario_nodes ''e2'' [''scm:s1'', ''lms:l1''] ''customer_training'' (8/10) []
     = (Inl (NodeNotFound k), scenario_nodes)" "k \<in> set [''scm:s1'', ''lms:l1'']"
    by blast
  moreover have "map_of (hg_nodes scenario_nodes) ''scm:s1'' \<noteq> None"
    by (simp add: index_eval)
  ultimately have "k = ''lms:l1''" by auto
  with h k(2) show ?thesis by simp
qed

text \<open>
  Claim C10. With at least one stored hyperedge, \<open>avgNodesPerEdge\<close> is the sum of the
  edges' node-key counts divided by the number of edges; with no hyperedge the division
  is zero by zero and the value is \<open>NaN\<close>.
\<close>

theorem avgNodesPerEdge_value:
  "(hyperEdges h \<noteq> [] \<longrightarrow>
      avgNodesPerEdge (getNetworkInsights h)
        = Number (real (sum_list (map (\<lambda>e. length (edge_nodes e)) (map snd (hyperEdges h))))
                    / real (length (hyperEdges h)))) \<and>
   (hyperEdges h = [] \<longrightarrow> avgNodesPerEdge (getNetworkInsights h) = NaN)"
  by (simp add: getNetworkInsights_def js_divide_def foldl_plus_length)

theorem avgNodesPerEdge_value_witness:
  "hyperEdges scenario_index \<noteq> [] \<and>
   avgNodesPerEdge (getNetworkInsights scenario_index) = Number 3 \<and>
   hyperEdges empty_index = [] \<and>
   avgNodesPerEdge (getNetworkInsights empty_index) = NaN"
  using avgNodesPerEdge_value [of scenario_index] avgNodesPerEdge_value [of empty_index]
  by (simp add: index_eval)

subsection \<open>Cross-domain paths\<close>








subsection \<open>Propagation\<close>

text \<open>
  Claim C7 at a source that belongs to no hyperedge: the loop leaves at its first
  \<open>break\<close>, before any round is completed, and the result is that of zero rounds
  except for \<open>hopsCompleted\<close>, which is the requested number.
\<close>

theorem propagate_reports_requested_hops:
  "hyperEdges lonely_index = [] \<and>
   propagate lonely_index ''scm:s1'' 2 =
     Inr \<lparr>pr_nodeId = ''scm:s1'',
          pr_embedding = \<lparr>vector = [1, 0], dimension = 2, emb_system = Some ''scm'', contributors = []\<rparr>,
          hopsCompleted = 2, nodesVisited = 1\<rparr> \<and>
   propagate lonely_index ''scm:s1'' 0 =
     Inr \<lparr>pr_nodeId = ''scm:s1'',
          pr_embedding = \<lparr>vector = [1, 0], dimension = 2, emb_system = Some ''scm'', contributors = []\<rparr>,
          hopsCompleted = 0, nodesVisited = 1\<rparr>"
  by (simp add: index_eval propagate_def numeral_eq_Suc)

text \<open>
  In general the reported \<open>hopsCompleted\<close> is the argument \<open>hops\<close>, and without edges the
  loop returns its state at once.
\<close>

lemma propagate_hopsCompleted: "propagate h t hops = Inr r \<Longrightarrow> hopsCompleted r = hops"
  by (auto simp: propagate_def split: option.splits sum.splits prod.splits)

lemma propagate_loop_no_edges: "hyperEdges h = [] \<Longrightarrow> propagate_loop h hops st = Inr st"
  by (cases hops; cases st) simp_all

text \<open>
  The count of visited nodes in the scenario of the claim: one round from \<open>scm:s1\<close> over
  the edge \<open>e1\<close> visits all three nodes.
\<close>

lemma propagate_scenario_3:
  "map_sum id nodesVisited (propagate scenario_index ''scm:s1'' 1) = Inr 3"
  by (simp add: index_eval propagate_def fromMultipleEmbeddings_def)

subsection \<open>Attention\<close>

lemma foldl_plus_sum_list: "foldl (+) (a::real) xs = a + sum_list xs"
  by (induction xs arbitrary: a) simp_all

lemma foldl_add_sum_list:
  "foldl (\<lambda>acc x. acc + g x) (a::real) xs = a + sum_list (map g xs)"
  by (induction xs arbitrary: a) simp_all

lemma sum_list_divide_const: "sum_list (map (\<lambda>s. s / c) xs) = sum_list xs / (c::real)"
  by (induction xs) (simp_all add: add_divide_distrib)

lemma sum_list_exp_pos: "xs \<noteq> [] \<Longrightarrow> 0 < sum_list (map (\<lambda>s. exp (s - m)) (xs::real list))"
proof (induction xs)
  case Nil
  then show ?case by simp
next
  case (Cons x xs)
  have "0 \<le> sum_list (map (\<lambda>s. exp (s - m)) xs)"
    by (rule sum_list_nonneg) auto
  moreover have "0 < exp (x - m)" by simp
  ultimately have "0 < exp (x - m) + sum_list (map (\<lambda>s. exp (s - m)) xs)"
    by (rule add_pos_nonneg [rotated])
  then show ?case by simp
qed

lemma length_softmax [simp]: "length (softmax scores) = length scores"
  by (simp add: softmax_def Let_def)

lemma sum_list_softmax:
  assumes "scores \<noteq> []"
  shows "sum_list (softmax scores) = 1"
proof -
  let ?E = "map (\<lambda>s. exp (s - Math_max scores)) scores"
  have "softmax scores = map (\<lambda>s. s / sum_list ?E) ?E"
    by (simp add: softmax_def Let_def foldl_plus_sum_list)
  then have "sum_list (softmax scores) = sum_list ?E / sum_list ?E"
    by (simp only: sum_list_divide_const)
  with sum_list_exp_pos [OF assms, of "Math_max scores"] show ?thesis by simp
qed

text \<open>
  In exact arithmetic every per-head softmax sums to one and the average over the heads
  keeps the sum: with at least one head and one key, \<open>computeAttention\<close> returns one
  weight per key and the weights sum to \<open>1\<close>; a single key gets the weight \<open>1\<close>. This is a
  fact about the reals; it says nothing about the rounding, the overflow or the \<open>NaN\<close> of
  the doubles the source computes with.
\<close>

lemma computeAttention_sum_real:
  assumes "0 < numHeads att" and "keyEmbs \<noteq> []"
  shows "length (computeAttention att queryEmb keyEmbs) = length keyEmbs \<and>
         sum_list (computeAttention att queryEmb keyEmbs) = 1"
proof -
  let ?H = "numHeads att" and ?n = "length keyEmbs"
  define head_scores where "head_scores head =
      softmax (map (\<lambda>keyEmb.
         dotProduct (transform (att_dimension att) (vector queryEmb) (attentionWeights att ! head))
           (transform (att_dimension att) (vector keyEmb) (attentionWeights att ! head))
           / sqrt (real (att_dimension att))) keyEmbs)" for head
  have len: "length (head_scores head) = ?n" for head
    by (simp add: head_scores_def)
  have one: "(\<Sum>i<?n. head_scores head ! i) = 1" for head
  proof -
    have "sum_list (head_scores head) = 1"
      unfolding head_scores_def using assms(2) by (intro sum_list_softmax) simp
    then show ?thesis
      by (simp add: sum_list_sum_nth len atLeast0LessThan)
  qed
  have ca: "computeAttention att queryEmb keyEmbs
      = map (\<lambda>i. (\<Sum>head<?H. head_scores head ! i) / real ?H) [0..<?n]"
    by (simp add: computeAttention_def Let_def head_scores_def foldl_add_sum_list
        interv_sum_list_conv_sum_set_nat atLeast0LessThan cong: map_cong)
  have "sum_list (computeAttention att queryEmb keyEmbs)
      = (\<Sum>i<?n. (\<Sum>head<?H. head_scores head ! i) / real ?H)"
    by (simp add: ca interv_sum_list_conv_sum_set_nat atLeast0LessThan)
  also have "\<dots> = (\<Sum>i<?n. \<Sum>head<?H. head_scores head ! i) / real ?H"
    by (simp add: sum_divide_distrib)
  also have "(\<Sum>i<?n. \<Sum>head<?H. head_scores head ! i) = (\<Sum>head<?H. \<Sum>i<?n. head_scores head ! i)"
    by (rule sum.swap)
  also have "\<dots> = real ?H" by (simp add: one)
  finally have "sum_list (computeAttention att queryEmb keyEmbs) = 1"
    using assms(1) by simp
  then show ?thesis by (simp add: ca)
qed

lemma computeAttention_single_real:
  assumes "0 < numHeads att"
  shows "computeAttention att queryEmb [keyEmb] = [1]"
proof -
  from computeAttention_sum_real [OF assms, of "[keyEmb]" queryEmb]
  have "length (computeAttention att queryEmb [keyEmb]) = 1"
    and "sum_list (computeAttention att queryEmb [keyEmb]) = 1" by simp_all
  then show ?thesis by (cases "computeAttention att queryEmb [keyEmb]") auto
qed

lemma draw_index_bound:
  assumes "head < heads" "i < d" "j < (d::nat)"
  shows "head * d * d + i * d + j < heads * d * d"
proof -
  from assms(2,3) have "i * d + j < Suc i * d" by simp
  also from assms(2) have "\<dots> \<le> d * d" by (intro mult_le_mono1) simp
  finally have "head * d * d + (i * d + j) < head * d * d + d * d" by simp
  also have "\<dots> = Suc head * (d * d)" by simp
  also from assms(1) have "\<dots> \<le> heads * (d * d)" by (intro mult_le_mono1) simp
  finally show ?thesis by (simp add: mult.assoc add.assoc)
qed

lemma initializeWeights_cong:
  assumes "\<forall>k<heads * d * d. rnd1 k = rnd2 k"
  shows "initializeWeights d heads rnd1 = initializeWeights d heads rnd2"
  unfolding initializeWeights_def
  by (intro map_cong refl) (simp add: assms draw_index_bound)

text \<open>
  Claim C9, as the code has it. The weights computed by an attention instance are a
  function of its dimension, its number of heads and the random draws of its
  construction: two instances built from draws that agree on the \<open>heads * d * d\<close> values
  read return the same weight lists, whatever else was passed to the constructor.
\<close>

theorem computeAttention_determined_by_draws:
  assumes "\<forall>k<heads * d * d. rnd1 k = rnd2 k"
  shows "computeAttention (new_HyperGraphAttention d heads extra1 rnd1) queryEmb keyEmbs
       = computeAttention (new_HyperGraphAttention d heads extra2 rnd2) queryEmb keyEmbs"
  by (simp add: new_HyperGraphAttention_def initializeWeights_cong [OF assms])

theorem computeAttention_determined_by_draws_witness:
  "(\<lambda>k::nat. if k < 1 then 0 else 1 :: real) 0 = (\<lambda>k. 0) 0 \<and>
   computeAttention (new_HyperGraphAttention 1 1 supplied (\<lambda>k. if k < 1 then 0 else 1))
       (emb [20]) [emb [0], emb [20]]
     = computeAttention (new_HyperGraphAttention 1 1 () (\<lambda>k. 0)) (emb [20]) [emb [0], emb [20]]"
proof -
  have "\<forall>k<1 * 1 * 1. (\<lambda>k::nat. if k < 1 then 0 else 1 :: real) k = (\<lambda>k. 0) k" by simp
  from computeAttention_determined_by_draws [OF this] show ?thesis by simp
qed

text \<open>
  Two instances constructed with the same supplied matrices differ in their weights when
  the random draws differ: the supplied matrices are not used.
\<close>

lemma attention_at_half:
  "computeAttention (new_HyperGraphAttention 1 1 supplied (\<lambda>k. 1/2)) (emb [20]) [emb [0], emb [20]]
     = [1/2, 1/2]"
  by (simp add: computeAttention_def new_HyperGraphAttention_def initializeWeights_def
      transform_def dotProduct_def softmax_def emb_def Let_def)

lemma attention_at_zero:
  "computeAttention (new_HyperGraphAttention 1 1 supplied (\<lambda>k. 0)) (emb [20]) [emb [0], emb [20]]
     = [exp (-1) / (exp (-1) + 1), 1 / (exp (-1) + 1)]"
  by (simp add: computeAttention_def new_HyperGraphAttention_def initializeWeights_def
      transform_def dotProduct_def softmax_def emb_def Let_def)

theorem supplied_matrices_counterexample:
  "computeAttention (new_HyperGraphAttention 1 1 supplied (\<lambda>k. 1/2)) (emb [20]) [emb [0], emb [20]]
     \<noteq> computeAttention (new_HyperGraphAttention 1 1 supplied (\<lambda>k. 0)) (emb [20]) [emb [0], emb [20]]"
proof -
  have "exp (-1 :: real) \<noteq> 1" by simp
  then have "1 / (exp (-1 :: real) + 1) \<noteq> 1 / 2" by (simp add: field_simps)
  then show ?thesis unfolding attention_at_half attention_at_zero by simp
qed

end
